theory Spec2Isabelle
  imports Complex_Main
begin

section \<open>The paper kernel: word wrap with offsets, edit actions and diff\<close>

text \<open>
  A shallow embedding of \<^verbatim>\<open>paperKernel.js\<close> (the second document of
  \<^verbatim>\<open>src/scripts/clean-ui.js\<close>, lines 130 to 500). Strings are lists of
  characters, one \<^typ>\<open>char\<close> per JavaScript code unit (code units below 256);
  indices, lengths, offsets and line numbers produced by the code are natural numbers;
  numbers supplied by a caller are values of \<open>jsnum\<close>.
\<close>

subsection \<open>JavaScript numbers and the operators the kernel applies to them\<close>

text \<open>
  A caller's number after \<^verbatim>\<open>Number(x)\<close>: not-a-number, an infinity, or a finite
  value. Finite doubles are rationals, and the kernel only compares, takes minima and maxima,
  adds small integers and rounds down, all of which are exact on them.
\<close>

datatype jsnum = NaN | PosInf | NegInf | Fin rat

datatype jserror = TypeError

text \<open>What a call does: it loops forever, throws, or returns.\<close>

datatype 'a outcome = Diverges | Throws jserror | Returns 'a

text \<open>\<^verbatim>\<open>x || d\<close> on numbers: \<^verbatim>\<open>NaN\<close> and \<^verbatim>\<open>0\<close> are falsy.\<close>

definition js_or :: "jsnum \<Rightarrow> jsnum \<Rightarrow> jsnum" where
  "js_or x d = (if x = NaN \<or> x = Fin 0 then d else x)"

fun js_min :: "jsnum \<Rightarrow> jsnum \<Rightarrow> jsnum" where
  "js_min NaN y = NaN"
| "js_min x NaN = NaN"
| "js_min NegInf y = NegInf"
| "js_min x NegInf = NegInf"
| "js_min PosInf y = y"
| "js_min x PosInf = x"
| "js_min (Fin a) (Fin b) = Fin (min a b)"

fun js_max :: "jsnum \<Rightarrow> jsnum \<Rightarrow> jsnum" where
  "js_max NaN y = NaN"
| "js_max x NaN = NaN"
| "js_max PosInf y = PosInf"
| "js_max x PosInf = PosInf"
| "js_max NegInf y = y"
| "js_max x NegInf = x"
| "js_max (Fin a) (Fin b) = Fin (max a b)"

text \<open>\<^verbatim>\<open>x + k\<close> for a finite constant \<open>k\<close> (\<^verbatim>\<open>x - 1\<close> is \<open>js_plus x (- 1)\<close>).\<close>

fun js_plus :: "jsnum \<Rightarrow> rat \<Rightarrow> jsnum" where
  "js_plus (Fin a) k = Fin (a + k)"
| "js_plus x k = x"

fun isFinite :: "jsnum \<Rightarrow> bool" where
  "isFinite (Fin a) = True"
| "isFinite x = False"

text \<open>\<^verbatim>\<open>xs[k]\<close>: an element when \<open>k\<close> is an integer index in range, else undefined.\<close>

fun js_index :: "'a list \<Rightarrow> jsnum \<Rightarrow> 'a option" where
  "js_index xs (Fin q) =
     (if q = of_int \<lfloor>q\<rfloor> \<and> 0 \<le> q \<and> nat \<lfloor>q\<rfloor> < length xs then Some (xs ! nat \<lfloor>q\<rfloor>) else None)"
| "js_index xs x = None"

text \<open>
  The relative index of \<^verbatim>\<open>Array.prototype.slice\<close>: the argument is truncated
  towards zero, a negative one counts from the end, and the result is clamped to the length.
\<close>

fun rel_index :: "nat \<Rightarrow> jsnum \<Rightarrow> nat" where
  "rel_index len NaN = 0"
| "rel_index len PosInf = len"
| "rel_index len NegInf = 0"
| "rel_index len (Fin q) =
     (let t = (if 0 \<le> q then \<lfloor>q\<rfloor> else \<lceil>q\<rceil>)
      in if t < 0 then nat (max (int len + t) 0) else min (nat t) len)"

definition js_slice :: "'a list \<Rightarrow> jsnum \<Rightarrow> jsnum \<Rightarrow> 'a list" where
  "js_slice xs a b =
     (let k = rel_index (length xs) a; f = rel_index (length xs) b in take (f - k) (drop k xs))"

subsection \<open>Strings\<close>

definition sp :: char where
  "sp = CHR '' ''"

definition nl :: char where
  "nl = CHR 0x0A"

text \<open>\<^verbatim>\<open>s.slice(a, b)\<close> for indices that are natural numbers.\<close>

definition slice :: "'a list \<Rightarrow> nat \<Rightarrow> nat \<Rightarrow> 'a list" where
  "slice s a b = take (b - a) (drop a s)"

text \<open>
  \<^verbatim>\<open>s.indexOf(c, i)\<close>: the first index at or after \<open>i\<close> holding \<open>c\<close>;
  \<open>None\<close> stands for the result \<^verbatim>\<open>-1\<close>.
\<close>

definition indexOf :: "string \<Rightarrow> char \<Rightarrow> nat \<Rightarrow> nat option" where
  "indexOf s c i =
     (if c \<in> set (drop i s) then Some (i + length (takeWhile (\<lambda>x. x \<noteq> c) (drop i s))) else None)"

text \<open>
  The white space of \<^verbatim>\<open>\s\<close> and of \<^verbatim>\<open>trim()\<close> among the code units
  below 256: tab, line feed, vertical tab, form feed, carriage return, space, no-break space.
\<close>

definition is_ws :: "char \<Rightarrow> bool" where
  "is_ws c = (c \<in> {CHR 0x09, CHR 0x0A, CHR 0x0B, CHR 0x0C, CHR 0x0D, CHR 0x20, CHR 0xA0})"

text \<open>\<^verbatim>\<open>s.trim()\<close>.\<close>

definition trim :: "string \<Rightarrow> string" where
  "trim s = rev (dropWhile is_ws (rev (dropWhile is_ws s)))"

text \<open>\<^verbatim>\<open>s.replace(/\s+/g, " ")\<close>: every maximal run of white space becomes one space.\<close>

function collapse_ws :: "string \<Rightarrow> string" where
  "collapse_ws [] = []"
| "collapse_ws (c # cs) =
     (if is_ws c then sp # collapse_ws (dropWhile is_ws cs) else c # collapse_ws cs)"
  by pat_completeness auto
termination
  by (relation "measure length") (auto simp: less_Suc_eq_le length_dropWhile_le)

text \<open>\<^verbatim>\<open>escHtml\<close> (lines 138 to 146).\<close>

definition escHtml :: "string \<Rightarrow> string" where
  "escHtml s =
     concat (map (\<lambda>m. if m = CHR ''&'' then ''&amp;''
                       else if m = CHR ''<'' then ''&lt;''
                       else if m = CHR ''>'' then ''&gt;''
                       else if m = CHR 0x22 then ''&quot;''
                       else if m = CHR 0x27 then ''&#039;''
                       else [m]) s)"

subsection \<open>Word wrap with offsets (lines 149 to 216)\<close>

text \<open>
  A visual line. The source's fields \<^verbatim>\<open>text\<close> and \<^verbatim>\<open>end\<close> are
  \<open>ltext\<close> and \<open>lend\<close> here.
\<close>

record vline =
  lineNo :: nat
  ltext :: string
  start :: nat
  lend :: nat

text \<open>
  The scanning loops \<^verbatim>\<open>while (k < para.length && P(para[k])) k++\<close> of lines 163,
  172, 176 and 186; the value is the final \<open>k\<close>.
\<close>

function scan :: "(char \<Rightarrow> bool) \<Rightarrow> string \<Rightarrow> nat \<Rightarrow> nat" where
  "scan P para k = (if k < length para \<and> P (para ! k) then scan P para (k + 1) else k)"
  by pat_completeness auto
termination
  by (relation "measure (\<lambda>(P, para, k). length para - k)") auto

declare scan.simps [simp del]

lemma scan_step: "k < length para \<Longrightarrow> P (para ! k) \<Longrightarrow> scan P para k = scan P para (Suc k)"
  by (subst scan.simps) simp

lemma scan_done: "\<not> (k < length para \<and> P (para ! k)) \<Longrightarrow> scan P para k = k"
  by (subst scan.simps) auto

lemma scan_ge: "k \<le> scan P para k"
proof (induction P para k rule: scan.induct)
  case (1 P para k)
  show ?case
  proof (cases "k < length para \<and> P (para ! k)")
    case True
    with 1 have "Suc k \<le> scan P para (Suc k)" by simp
    with True show ?thesis by (simp add: scan_step)
  next
    case False
    then show ?thesis by (simp add: scan_done)
  qed
qed

lemma scan_stop: "scan P para k < length para \<Longrightarrow> \<not> P (para ! scan P para k)"
proof (induction P para k rule: scan.induct)
  case (1 P para k)
  show ?case
  proof (cases "k < length para \<and> P (para ! k)")
    case True
    then have e: "scan P para k = scan P para (Suc k)" by (simp add: scan_step)
    with 1 True show ?thesis by simp
  next
    case False
    then have e: "scan P para k = k" by (simp add: scan_done)
    with 1 False show ?thesis by auto
  qed
qed

lemma scan_word_gt: "k < length para \<Longrightarrow> \<not> P (para ! k) \<Longrightarrow> k < scan (\<lambda>c. \<not> P c) para k"
  using scan_ge [of "Suc k" "\<lambda>c. \<not> P c" para] by (simp add: scan_step)

text \<open>
  The loop of lines 170 to 198, which builds one visual line. Its state is the cursor, the
  text of the line so far and the line's absolute start and end; the value is that state when
  the loop is left.
\<close>

function build_line ::
  "string \<Rightarrow> nat \<Rightarrow> nat \<Rightarrow> nat \<Rightarrow> string \<Rightarrow> nat \<Rightarrow> nat \<Rightarrow> nat \<times> string \<times> nat \<times> nat" where
  "build_line para cols pStart cursor lineText lineStartAbs lineEndAbs =
     (if cursor < length para then
        let wStart = scan (\<lambda>c. c = sp) para cursor in
        if wStart \<ge> length para then (cursor, lineText, lineStartAbs, lineEndAbs)
        else
          let wEnd = scan (\<lambda>c. c \<noteq> sp) para wStart;
              word = slice para wStart wEnd;
              candidate = (if lineText \<noteq> [] then lineText @ [sp] @ word else word)
          in if length candidate \<le> cols then
               build_line para cols pStart (scan (\<lambda>c. c = sp) para wEnd) candidate
                 (if lineText = [] then pStart + wStart else lineStartAbs) (pStart + wEnd)
             else if lineText = [] then
               let cut = slice word 0 cols
               in (wStart + length cut, cut, pStart + wStart, pStart + wStart + length cut)
             else (cursor, lineText, lineStartAbs, lineEndAbs)
      else (cursor, lineText, lineStartAbs, lineEndAbs))"
  by pat_completeness auto
termination
proof (relation "measure (\<lambda>(para, cols, pStart, cursor, lt, ls, le). length para - cursor)", goal_cases)
  case 1
  show ?case by simp
next
  case (2 para cols pStart cursor lineText lineStartAbs lineEndAbs wStart wEnd word candidate)
  have a: "cursor \<le> wStart" using 2 by (simp add: scan_ge)
  have b: "para ! wStart \<noteq> sp"
    using 2 scan_stop [of "\<lambda>c. c = sp" para cursor] by simp
  have c: "wStart < wEnd" using 2 b scan_word_gt [of wStart para "\<lambda>c. c = sp"] by simp
  have d: "wEnd \<le> scan (\<lambda>c. c = sp) para wEnd" by (rule scan_ge)
  from a c d 2 show ?case by simp
qed

declare build_line.simps [simp del]

text \<open>
  The loop of lines 162 to 202 over one paragraph: skip spaces, build a line, push it, and
  go on from the new cursor. The value is the list of the lines pushed, in order; the line
  number after the loop is the one before it plus their count. Nothing in the source makes
  the cursor advance when \<open>cols\<close> is 0, so the loop need not return: \<open>None\<close> is a run
  that never leaves it.
\<close>

partial_function (option) wrap_lines ::
  "string \<Rightarrow> nat \<Rightarrow> nat \<Rightarrow> nat \<Rightarrow> nat \<Rightarrow> vline list option" where
  "wrap_lines para cols pStart cursor lineNum =
     (if cursor < length para then
        let c = scan (\<lambda>x. x = sp) para cursor in
        if c \<ge> length para then Some []
        else
          case build_line para cols pStart c [] (pStart + c) (pStart + c) of
            (c', lineText, lineStartAbs, lineEndAbs) \<Rightarrow>
              Option.bind (wrap_lines para cols pStart c' (lineNum + 1))
                (\<lambda>rest. Some (\<lparr>lineNo = lineNum, ltext = lineText, start = lineStartAbs,
                                 lend = lineEndAbs\<rparr> # rest))
      else Some [])"

declare wrap_lines.simps [code]

lemma length_takeWhile_lt: "x \<in> set xs \<Longrightarrow> \<not> P x \<Longrightarrow> length (takeWhile P xs) < length xs"
  by (induction xs) auto

lemma indexOf_bounds: "i \<le> length s \<Longrightarrow> indexOf s c i = Some k \<Longrightarrow> i \<le> k \<and> k < length s"
proof -
  assume a: "i \<le> length s" and b: "indexOf s c i = Some k"
  from b have m: "c \<in> set (drop i s)" and k: "k = i + length (takeWhile (\<lambda>x. x \<noteq> c) (drop i s))"
    by (auto simp: indexOf_def split: if_splits)
  from m have "length (takeWhile (\<lambda>x. x \<noteq> c) (drop i s)) < length (drop i s)"
    by (rule length_takeWhile_lt) simp
  with a k show ?thesis by simp
qed

text \<open>
  The outer loop of lines 155 to 212 over the paragraphs, from offset \<open>i\<close> with the next
  line number \<open>lineNum\<close>; the value is the list of the lines pushed from there on.
\<close>

function layout_from :: "string \<Rightarrow> nat \<Rightarrow> nat \<Rightarrow> nat \<Rightarrow> vline list option" where
  "layout_from s cols i lineNum =
     (if i \<le> length s then
        let pEnd = (case indexOf s nl i of None \<Rightarrow> length s | Some k \<Rightarrow> k);
            pStart = i;
            para = slice s pStart pEnd
        in case wrap_lines para cols pStart 0 lineNum of
             None \<Rightarrow> None
           | Some ls \<Rightarrow>
               let lineNum1 = lineNum + length ls;
                   el = (if length para = 0
                         then [\<lparr>lineNo = lineNum1, ltext = [], start = pStart, lend = pStart\<rparr>]
                         else []);
                   lineNum2 = lineNum1 + length el
               in if pEnd = length s then Some (ls @ el)
                  else (case layout_from s cols (pEnd + 1) lineNum2 of
                          None \<Rightarrow> None
                        | Some rest \<Rightarrow> Some (ls @ el @ rest))
      else Some [])"
  by pat_completeness auto
termination
proof (relation "measure (\<lambda>(s, cols, i, n). Suc (length s) - i)", goal_cases)
  case 1
  show ?case by simp
next
  case (2 s cols i lineNum pEnd pStart para ls lineNum1 el lineNum2)
  then have "i \<le> pEnd \<and> pEnd < length s"
    using indexOf_bounds [of i s nl] by (auto split: option.splits)
  then show ?case by auto
qed

declare layout_from.simps [simp del]

text \<open>\<^verbatim>\<open>layoutWordWrapWithOffsets(buffer, cols)\<close>, with the fallback of line 214.\<close>

definition layoutWordWrapWithOffsets :: "string \<Rightarrow> nat \<Rightarrow> vline list option" where
  "layoutWordWrapWithOffsets buffer cols =
     (case layout_from buffer cols 0 1 of
        None \<Rightarrow> None
      | Some out \<Rightarrow>
          Some (if out = [] then [\<lparr>lineNo = 1, ltext = [], start = 0, lend = 0\<rparr>] else out))"

subsection \<open>Highlights and the annotation window (lines 219 to 245)\<close>

text \<open>
  \<^verbatim>\<open>computeHighlightLinesByAbsRange\<close>; both offsets are natural numbers at every call,
  so \<^verbatim>\<open>Number(x) || d\<close> is \<open>d\<close> exactly when \<open>x\<close> is 0.
\<close>

definition computeHighlightLinesByAbsRange :: "vline list \<Rightarrow> nat \<Rightarrow> nat \<Rightarrow> nat list" where
  "computeHighlightLinesByAbsRange visLines absStart absEnd =
     (let a = max 0 (if absStart = 0 then 0 else absStart);
          b = max a (if absEnd = 0 then a else absEnd)
      in map lineNo (filter (\<lambda>v. start v < b \<and> lend v > a) visLines))"

record annot =
  startLine :: jsnum
  htmlLines :: "string list"

definition span_open :: string where
  "span_open = ''<span class='' @ [CHR 0x22] @ ''newLineFull'' @ [CHR 0x22] @ ''>''"

definition buildAnnotWindow :: "vline list \<Rightarrow> jsnum \<Rightarrow> rat \<Rightarrow> nat list \<Rightarrow> annot" where
  "buildAnnotWindow afterVis startLn windowSize highlightSet =
     (let sl = js_slice afterVis (js_plus startLn (- 1)) (js_plus (js_plus startLn (- 1)) windowSize)
      in \<lparr>startLine = startLn,
          htmlLines = map (\<lambda>v. let t = ltext v in
                                 if t = [] then []
                                 else if lineNo v \<in> set highlightSet
                                 then span_open @ escHtml t @ ''</span>''
                                 else escHtml t) sl\<rparr>)"

subsection \<open>The kernel's state (lines 247 to 302)\<close>

record diffrec =
  anchorLine :: jsnum
  removedText :: "string option"
  removedLines :: "string list option"
  highlightLines :: "nat list"
  annot :: annot

text \<open>
  The object \<^verbatim>\<open>paper\<close>. The source's fields \<^verbatim>\<open>rev\<close> and \<^verbatim>\<open>text\<close>
  are \<open>paper_rev\<close> and \<open>ptext\<close> here. \<open>cols\<close> is a natural number: the default 26, or
  what \<open>setCols\<close> stores.
\<close>

record paper =
  cols :: nat
  paper_rev :: nat
  ptext :: string
  diff :: "diffrec option"

definition createPaperKernel :: "nat option \<Rightarrow> paper" where
  "createPaperKernel c =
     \<lparr>cols = (case c of None \<Rightarrow> 26 | Some n \<Rightarrow> n), paper_rev = 0, ptext = [], diff = None\<rparr>"

definition getVisualLines :: "paper \<Rightarrow> vline list option" where
  "getVisualLines p = layoutWordWrapWithOffsets (ptext p) (cols p)"

definition clearDiff :: "paper \<Rightarrow> paper" where
  "clearDiff p = p\<lparr>diff := None\<rparr>"

text \<open>\<^verbatim>\<open>_setDiff\<close> (lines 287 to 302).\<close>

definition setDiff ::
  "paper \<Rightarrow> jsnum \<Rightarrow> string option \<Rightarrow> string list option \<Rightarrow> nat list \<Rightarrow> paper outcome" where
  "setDiff p anchorLn remText remLines hlLines =
     (case getVisualLines p of
        None \<Rightarrow> Diverges
      | Some afterVis \<Rightarrow>
          let winStart = js_max (Fin 1) (js_plus (js_or anchorLn (Fin 1)) (- 2));
              an = buildAnnotWindow afterVis winStart 45 hlLines
          in Returns (p\<lparr>diff := Some \<lparr>anchorLine = js_or anchorLn (Fin 1), removedText = remText,
                                       removedLines = remLines, highlightLines = hlLines,
                                       annot = an\<rparr>\<rparr>))"

text \<open>\<^verbatim>\<open>setCols\<close>, \<^verbatim>\<open>seed\<close> and \<^verbatim>\<open>clear\<close> (lines 484 to 496).\<close>

definition setCols :: "paper \<Rightarrow> jsnum \<Rightarrow> paper" where
  "setCols p n =
     (case n of
        Fin q \<Rightarrow> if isFinite n \<and> q \<ge> 10 \<and> q \<le> 120 then p\<lparr>cols := nat \<lfloor>q\<rfloor>\<rparr> else p
      | _ \<Rightarrow> p)"

definition seed :: "paper \<Rightarrow> string option \<Rightarrow> paper" where
  "seed p t =
     p\<lparr>ptext := (case t of None \<Rightarrow> [] | Some x \<Rightarrow> x), paper_rev := paper_rev p + 1, diff := None\<rparr>"

definition clear :: "paper \<Rightarrow> paper" where
  "clear p = p\<lparr>ptext := [], paper_rev := paper_rev p + 1, diff := None\<rparr>"

subsection \<open>The actions (lines 306 to 480)\<close>

text \<open>
  The object \<^verbatim>\<open>_writeReplaceInternal\<close> returns, with the \<^verbatim>\<open>op\<close> that
  \<^verbatim>\<open>write_replace\<close> and \<^verbatim>\<open>clear_line\<close> add. These are all the fields it has.
\<close>

record replace_result =
  res_ok :: bool
  res_anchorLine :: jsnum
  res_removedText :: "string option"
  res_removedLines :: "string list option"
  res_paper_rev :: nat
  res_highlightLines :: "nat list"
  res_op :: string

record clear_line_result = replace_result +
  clearedLine :: jsnum

definition writeReplaceInternal ::
  "paper \<Rightarrow> jsnum \<Rightarrow> string option \<Rightarrow> (replace_result \<times> paper) outcome" where
  "writeReplaceInternal p anchorLn newText =
     (case getVisualLines p of
        None \<Rightarrow> Diverges
      | Some beforeVis \<Rightarrow>
          let N = js_max (Fin 1) (js_min (js_or anchorLn (Fin 1)) (Fin (of_nat (length beforeVis))))
          in case js_index beforeVis (js_plus N (- 1)) of
               None \<Rightarrow> Throws TypeError
             | Some target \<Rightarrow>
                 let oldText = ltext target;
                     st = start target;
                     en = lend target;
                     rep = trim (collapse_ws (case newText of None \<Rightarrow> [] | Some t \<Rightarrow> t));
                     p1 = p\<lparr>ptext := slice (ptext p) 0 st @ rep @ drop en (ptext p),
                            paper_rev := paper_rev p + 1\<rparr>
                 in case getVisualLines p1 of
                      None \<Rightarrow> Diverges
                    | Some afterVis \<Rightarrow>
                        let absStart = st;
                            absEnd = st + length rep;
                            hl = computeHighlightLinesByAbsRange afterVis absStart absEnd;
                            isClear = (length rep = 0);
                            remText = (if isClear then None else Some oldText);
                            remLines = (if isClear then Some [oldText] else None)
                        in case setDiff p1 N remText remLines hl of
                             Diverges \<Rightarrow> Diverges
                           | Throws e \<Rightarrow> Throws e
                           | Returns p2 \<Rightarrow>
                               Returns (\<lparr>res_ok = True, res_anchorLine = N,
                                         res_removedText = remText, res_removedLines = remLines,
                                         res_paper_rev = paper_rev p2, res_highlightLines = hl,
                                         res_op = []\<rparr>, p2))"

definition write_replace ::
  "paper \<Rightarrow> jsnum \<Rightarrow> string option \<Rightarrow> (replace_result \<times> paper) outcome" where
  "write_replace p anchorLn newText =
     (case writeReplaceInternal p anchorLn newText of
        Diverges \<Rightarrow> Diverges
      | Throws e \<Rightarrow> Throws e
      | Returns (r, p') \<Rightarrow> Returns (r\<lparr>res_op := ''write_replace''\<rparr>, p'))"

definition clear_line :: "paper \<Rightarrow> jsnum \<Rightarrow> (clear_line_result \<times> paper) outcome" where
  "clear_line p line =
     (case writeReplaceInternal p line (Some []) of
        Diverges \<Rightarrow> Diverges
      | Throws e \<Rightarrow> Throws e
      | Returns (r, p') \<Rightarrow>
          Returns (replace_result.extend (r\<lparr>res_op := ''clear_line''\<rparr>)
                     (clear_line_result.fields (res_anchorLine r)), p'))"

text \<open>
  What \<^verbatim>\<open>write_append\<close> returns: the rejection has a \<^verbatim>\<open>reason\<close> and no
  highlights, the success has highlights and no reason.
\<close>

record append_result =
  app_ok :: bool
  app_op :: string
  app_reason :: "string option"
  app_paper_rev :: nat
  app_highlightLines :: "nat list option"

definition write_append :: "paper \<Rightarrow> string option \<Rightarrow> bool option \<Rightarrow> (append_result \<times> paper) outcome" where
  "write_append p t ensureNewParagraph =
     (case getVisualLines p of
        None \<Rightarrow> Diverges
      | Some beforeVis \<Rightarrow>
          let beforeLen = length (ptext p);
              ins = trim (case t of None \<Rightarrow> [] | Some x \<Rightarrow> x)
          in if ins = [] then
               Returns (\<lparr>app_ok = False, app_op = ''write_append'', app_reason = Some ''empty_text'',
                         app_paper_rev = paper_rev p, app_highlightLines = None\<rparr>, p)
             else
               let needsNL = ((case ensureNewParagraph of None \<Rightarrow> True | Some b \<Rightarrow> b)
                              \<and> length (ptext p) > 0 \<and> \<not> (ptext p \<noteq> [] \<and> last (ptext p) = nl));
                   absStart = beforeLen + (if needsNL then 1 else 0);
                   p1 = p\<lparr>ptext := ptext p @ (if needsNL then [nl] else []) @ ins,
                          paper_rev := paper_rev p + 1\<rparr>
               in case getVisualLines p1 of
                    None \<Rightarrow> Diverges
                  | Some afterVis \<Rightarrow>
                      let absEnd = absStart + length ins;
                          hl = computeHighlightLinesByAbsRange afterVis absStart absEnd
                      in case setDiff p1 (Fin (max 1 (of_nat (length beforeVis)))) None None hl of
                           Diverges \<Rightarrow> Diverges
                         | Throws e \<Rightarrow> Throws e
                         | Returns p2 \<Rightarrow>
                             Returns (\<lparr>app_ok = True, app_op = ''write_append'', app_reason = None,
                                       app_paper_rev = paper_rev p2,
                                       app_highlightLines = Some hl\<rparr>, p2))"

record clear_all_result =
  ca_ok :: bool
  ca_op :: string
  ca_paper_rev :: nat
  removedLinesCount :: nat

definition clear_all :: "paper \<Rightarrow> (clear_all_result \<times> paper) outcome" where
  "clear_all p =
     (case getVisualLines p of
        None \<Rightarrow> Diverges
      | Some beforeVis \<Rightarrow>
          let remLines = map ltext beforeVis;
              p1 = p\<lparr>ptext := [], paper_rev := paper_rev p + 1\<rparr>
          in case setDiff p1 (Fin 1) None (Some remLines) [] of
               Diverges \<Rightarrow> Diverges
             | Throws e \<Rightarrow> Throws e
             | Returns p2 \<Rightarrow>
                 Returns (\<lparr>ca_ok = True, ca_op = ''clear_all'', ca_paper_rev = paper_rev p2,
                           removedLinesCount = length remLines\<rparr>, p2))"

text \<open>\<^verbatim>\<open>read\<close> (lines 369 to 380); each line is returned with its number, text and offsets.\<close>

record read_result =
  rd_rev :: nat
  rd_startLine :: jsnum
  rd_endLine :: jsnum
  rd_lines :: "vline list"

definition read :: "paper \<Rightarrow> jsnum \<Rightarrow> jsnum \<Rightarrow> (read_result \<times> paper) outcome" where
  "read p startLn endLn =
     (case getVisualLines p of
        None \<Rightarrow> Diverges
      | Some vis \<Rightarrow>
          let s = js_max (Fin 1) (js_min (js_or startLn (Fin 1)) (Fin (of_nat (length vis))));
              e = js_max s (js_min (js_or endLn s) (Fin (of_nat (length vis))));
              lines = js_slice vis (js_plus s (- 1)) e
          in Returns (\<lparr>rd_rev = paper_rev p, rd_startLine = s, rd_endLine = e, rd_lines = lines\<rparr>, p))"

section \<open>Notions used to state the claims\<close>

text \<open>
  The end of the paragraph that starts at offset \<open>i\<close>: the value of \<^verbatim>\<open>pEnd\<close> after
  lines 156 and 157. And the line pushed for an empty paragraph at lines 205 to 208, as a
  list: empty when the paragraph is not empty.
\<close>

definition para_end :: "string \<Rightarrow> nat \<Rightarrow> nat" where
  "para_end s i = (case indexOf s nl i of None \<Rightarrow> length s | Some k \<Rightarrow> k)"

definition empty_line :: "string \<Rightarrow> nat \<Rightarrow> nat \<Rightarrow> vline list" where
  "empty_line para pStart k =
     (if length para = 0 then [\<lparr>lineNo = k, ltext = [], start = pStart, lend = pStart\<rparr>] else [])"

text \<open>
  The paragraphs of a buffer, as the specification has them: the maximal runs of text between
  newline characters (one more than there are newlines).
\<close>

fun paragraphs :: "string \<Rightarrow> string list" where
  "paragraphs [] = [[]]"
| "paragraphs (c # cs) =
     (if c = nl then [] # paragraphs cs
      else (case paragraphs cs of [] \<Rightarrow> [[c]] | p # ps \<Rightarrow> (c # p) # ps))"



text \<open>
  Clamping, as the specification has it: a line number outside the range, or one that is
  not finite, is coerced into the nearest value of the range from \<open>lo\<close> to \<open>hi\<close>; one
  that is not a number takes the default, the lower end (line 1 for a start line).
  \<open>nearest_int\<close> is the same on integers.
\<close>

definition nearest :: "rat \<Rightarrow> rat \<Rightarrow> jsnum \<Rightarrow> rat" where
  "nearest lo hi x =
     (case x of
        NaN \<Rightarrow> lo
      | NegInf \<Rightarrow> lo
      | PosInf \<Rightarrow> hi
      | Fin q \<Rightarrow> if q < lo then lo else if hi < q then hi else q)"

definition nearest_int :: "int \<Rightarrow> int \<Rightarrow> int \<Rightarrow> int" where
  "nearest_int lo hi x = (if x < lo then lo else if hi < x then hi else x)"

section \<open>Properties of the scanning and line-building loops\<close>

lemma scan_eq: "k \<le> length para \<Longrightarrow> scan P para k = k + length (takeWhile P (drop k para))"
proof (induction P para k rule: scan.induct)
  case (1 P para k)
  show ?case
  proof (cases "k < length para \<and> P (para ! k)")
    case True
    then have d: "drop k para = para ! k # drop (Suc k) para"
      by (simp add: Cons_nth_drop_Suc)
    from True 1 have "scan P para (k + 1) = (k + 1) + length (takeWhile P (drop (k + 1) para))"
      by simp
    with True d show ?thesis by (simp add: scan_step)
  next
    case False
    show ?thesis
    proof (cases "k < length para")
      case True
      with False have "\<not> P (para ! k)" by simp
      moreover from True have "drop k para = para ! k # drop (Suc k) para"
        by (simp add: Cons_nth_drop_Suc)
      ultimately show ?thesis using False by (simp add: scan_done)
    next
      case False
      then show ?thesis by (simp add: scan_done)
    qed
  qed
qed

lemma scan_le: "k \<le> length para \<Longrightarrow> scan P para k \<le> length para"
proof -
  assume a: "k \<le> length para"
  have "length (takeWhile P (drop k para)) \<le> length (drop k para)"
    by (rule length_takeWhile_le)
  with a show ?thesis by (simp add: scan_eq)
qed


lemma slice_scan: "k \<le> length para \<Longrightarrow> slice para k (scan P para k) = takeWhile P (drop k para)"
  by (simp add: slice_def scan_eq takeWhile_eq_take [symmetric])

lemma build_line_exit: "\<not> cursor < length para \<Longrightarrow> build_line para width pStart cursor lt ls le = (cursor, lt, ls, le)"
  by (subst build_line.simps) simp

lemma build_line_trail:
  "cursor < length para \<Longrightarrow> length para \<le> scan (\<lambda>c. c = sp) para cursor \<Longrightarrow>
   build_line para width pStart cursor lt ls le = (cursor, lt, ls, le)"
  by (subst build_line.simps) simp

lemma build_line_fit:
  "cursor < length para \<Longrightarrow> wStart = scan (\<lambda>c. c = sp) para cursor \<Longrightarrow> wStart < length para \<Longrightarrow>
   wEnd = scan (\<lambda>c. c \<noteq> sp) para wStart \<Longrightarrow> word = slice para wStart wEnd \<Longrightarrow>
   candidate = (if lt \<noteq> [] then lt @ [sp] @ word else word) \<Longrightarrow> length candidate \<le> width \<Longrightarrow>
   build_line para width pStart cursor lt ls le =
     build_line para width pStart (scan (\<lambda>c. c = sp) para wEnd) candidate
       (if lt = [] then pStart + wStart else ls) (pStart + wEnd)"
  by (subst build_line.simps) (auto simp: Let_def)

lemma build_line_cut:
  "cursor < length para \<Longrightarrow> wStart = scan (\<lambda>c. c = sp) para cursor \<Longrightarrow> wStart < length para \<Longrightarrow>
   wEnd = scan (\<lambda>c. c \<noteq> sp) para wStart \<Longrightarrow> word = slice para wStart wEnd \<Longrightarrow>
   \<not> length word \<le> width \<Longrightarrow>
   build_line para width pStart cursor [] ls le =
     (wStart + length (slice word 0 width), slice word 0 width, pStart + wStart,
      pStart + wStart + length (slice word 0 width))"
  by (subst build_line.simps) (simp add: Let_def)

lemma build_line_break:
  "cursor < length para \<Longrightarrow> wStart = scan (\<lambda>c. c = sp) para cursor \<Longrightarrow> wStart < length para \<Longrightarrow>
   wEnd = scan (\<lambda>c. c \<noteq> sp) para wStart \<Longrightarrow> word = slice para wStart wEnd \<Longrightarrow>
   lt \<noteq> [] \<Longrightarrow> \<not> length (lt @ [sp] @ word) \<le> width \<Longrightarrow>
   build_line para width pStart cursor lt ls le = (cursor, lt, ls, le)"
  by (subst build_line.simps) (simp add: Let_def)

text \<open>The word found at a word start: non-empty, inside the paragraph.\<close>

lemma word_bounds:
  assumes "cursor \<le> length para" "wStart = scan (\<lambda>c. c = sp) para cursor" "wStart < length para"
    "wEnd = scan (\<lambda>c. c \<noteq> sp) para wStart"
  shows "cursor \<le> wStart \<and> wStart < wEnd \<and> wEnd \<le> length para \<and> length (slice para wStart wEnd) = wEnd - wStart"
proof -
  have a: "cursor \<le> wStart" using assms by (simp add: scan_ge)
  have b: "para ! wStart \<noteq> sp" using assms scan_stop [of "\<lambda>c. c = sp" para cursor] by simp
  have c: "wStart < wEnd" using assms b scan_word_gt [of wStart para "\<lambda>c. c = sp"] by simp
  have d: "wEnd \<le> length para" using assms by (simp add: scan_le)
  have e: "length (slice para wStart wEnd) = wEnd - wStart" using d by (simp add: slice_def)
  from a c d e show ?thesis by simp
qed

lemma build_line_inv:
  "cursor \<le> length para \<Longrightarrow> build_line para width pStart cursor lt ls le = (c', t, s, e) \<Longrightarrow>
   cursor \<le> c' \<and> c' \<le> length para \<and> (length lt \<le> width \<longrightarrow> length t \<le> width) \<and>
   (lt \<noteq> [] \<longrightarrow> t \<noteq> [] \<and> s = ls \<and> (ls \<le> le \<and> le \<le> pStart + cursor \<longrightarrow> s \<le> e \<and> e \<le> pStart + c'))"
proof (induction para width pStart cursor lt ls le arbitrary: c' t s e rule: build_line.induct)
  case (1 para width pStart cursor lt ls le)
  define wStart where "wStart = scan (\<lambda>c. c = sp) para cursor"
  define wEnd where "wEnd = scan (\<lambda>c. c \<noteq> sp) para wStart"
  define word where "word = slice para wStart wEnd"
  define candidate where "candidate = (if lt \<noteq> [] then lt @ [sp] @ word else word)"
  consider (exit) "\<not> cursor < length para"
    | (trail) "cursor < length para" "length para \<le> wStart"
    | (fit) "cursor < length para" "wStart < length para" "length candidate \<le> width"
    | (cut) "cursor < length para" "wStart < length para" "\<not> length candidate \<le> width" "lt = []"
    | (brk) "cursor < length para" "wStart < length para" "\<not> length candidate \<le> width" "lt \<noteq> []"
    by fastforce
  then show ?case
  proof cases
    case exit
    with "1.prems" show ?thesis by (simp add: build_line_exit)
  next
    case trail
    with "1.prems" show ?thesis by (simp add: build_line_trail wStart_def)
  next
    case fit
    have wb: "cursor \<le> wStart \<and> wStart < wEnd \<and> wEnd \<le> length para \<and> length word = wEnd - wStart"
      unfolding word_def using word_bounds [OF "1.prems"(1) wStart_def fit(2) wEnd_def] .
    let ?c2 = "scan (\<lambda>c. c = sp) para wEnd"
    have c2: "wEnd \<le> ?c2" "?c2 \<le> length para" using wb by (simp_all add: scan_ge scan_le)
    have eq: "build_line para width pStart ?c2 candidate (if lt = [] then pStart + wStart else ls) (pStart + wEnd)
                = (c', t, s, e)"
      using build_line_fit [OF fit(1) wStart_def fit(2) wEnd_def word_def candidate_def fit(3)] "1.prems"(2)
      by simp
    have nl: "\<not> length para \<le> wStart" using fit by simp
    note ih = "1.IH" [OF fit(1) wStart_def nl wEnd_def word_def candidate_def fit(3) c2(2) eq]
    have cne: "candidate \<noteq> []" using wb by (auto simp: candidate_def)
    from ih cne wb c2 fit show ?thesis by (auto split: if_splits)
  next
    case cut
    then have "\<not> length word \<le> width" by (simp add: candidate_def)
    note r = build_line_cut [OF cut(1) wStart_def cut(2) wEnd_def word_def this, of pStart ls le]
    have wb: "cursor \<le> wStart \<and> wStart < wEnd \<and> wEnd \<le> length para \<and> length word = wEnd - wStart"
      unfolding word_def using word_bounds [OF "1.prems"(1) wStart_def cut(2) wEnd_def] .
    from r "1.prems" cut wb show ?thesis by (auto simp: slice_def)
  next
    case brk
    then have "\<not> length (lt @ [sp] @ word) \<le> width" by (simp add: candidate_def)
    note r = build_line_break [OF brk(1) wStart_def brk(2) wEnd_def word_def brk(4) this, of pStart ls le]
    with "1.prems" brk show ?thesis by simp
  qed
qed


section \<open>Properties of the paragraph loop\<close>

lemma build_line_first:
  assumes c: "c < length para" and ns: "para ! c \<noteq> sp"
    and b: "build_line para width pStart c [] (pStart + c) (pStart + c) = (c', t, s, e)"
  shows "s = pStart + c \<and> s \<le> e \<and> e \<le> pStart + c' \<and> c \<le> c' \<and> c' \<le> length para \<and>
         length t \<le> width \<and> (1 \<le> width \<longrightarrow> c < c' \<and> t \<noteq> [])"
proof -
  define wEnd where "wEnd = scan (\<lambda>c. c \<noteq> sp) para c"
  define word where "word = slice para c wEnd"
  have ws: "c = scan (\<lambda>c. c = sp) para c" using ns by (simp add: scan_done)
  have cl: "c \<le> length para" using c by simp
  have wb: "c < wEnd \<and> wEnd \<le> length para \<and> length word = wEnd - c"
    unfolding word_def using word_bounds [OF cl ws c wEnd_def] by simp
  show ?thesis
  proof (cases "length word \<le> width")
    case True
    let ?c2 = "scan (\<lambda>c. c = sp) para wEnd"
    have c2: "wEnd \<le> ?c2" "?c2 \<le> length para" using wb by (simp_all add: scan_ge scan_le)
    have "build_line para width pStart c [] (pStart + c) (pStart + c)
            = build_line para width pStart ?c2 word (pStart + c) (pStart + wEnd)"
      using build_line_fit [OF c ws c wEnd_def word_def _ _, of word "[]" width pStart "pStart + c" "pStart + c"] True
      by simp
    with b have eq: "build_line para width pStart ?c2 word (pStart + c) (pStart + wEnd) = (c', t, s, e)"
      by simp
    have wne: "word \<noteq> []" using wb by auto
    from build_line_inv [OF c2(2) eq] wne True wb c2 show ?thesis by auto
  next
    case False
    from build_line_cut [OF c ws c wEnd_def word_def False, of pStart "pStart + c" "pStart + c"] b
    have "c' = c + length (slice word 0 width)" "t = slice word 0 width" "s = pStart + c"
      "e = pStart + c + length (slice word 0 width)" by simp_all
    with False wb show ?thesis by (auto simp: slice_def min_def)
  qed
qed

lemma wrap_lines_stop:
  "\<not> cursor < length para \<or> length para \<le> scan (\<lambda>x. x = sp) para cursor \<Longrightarrow>
   wrap_lines para width pStart cursor n = Some []"
  by (subst wrap_lines.simps) auto

lemma wrap_lines_step:
  "cursor < length para \<Longrightarrow> c = scan (\<lambda>x. x = sp) para cursor \<Longrightarrow> c < length para \<Longrightarrow>
   build_line para width pStart c [] (pStart + c) (pStart + c) = (c', t, s, e) \<Longrightarrow>
   wrap_lines para width pStart cursor n =
     Option.bind (wrap_lines para width pStart c' (n + 1))
       (\<lambda>rest. Some (\<lparr>lineNo = n, ltext = t, start = s, lend = e\<rparr> # rest))"
  by (subst wrap_lines.simps) (simp add: Let_def)

lemma wrap_lines_Some:
  "1 \<le> width \<Longrightarrow> \<exists>ls. wrap_lines para width pStart cursor n = Some ls"
proof (induction "length para - cursor" arbitrary: cursor n rule: less_induct)
  case less
  show ?case
  proof (cases "\<not> cursor < length para \<or> length para \<le> scan (\<lambda>x. x = sp) para cursor")
    case True
    then show ?thesis by (simp add: wrap_lines_stop)
  next
    case False
    define c where "c = scan (\<lambda>x. x = sp) para cursor"
    obtain c' t s e where b: "build_line para width pStart c [] (pStart + c) (pStart + c) = (c', t, s, e)"
      by (cases "build_line para width pStart c [] (pStart + c) (pStart + c)") auto
    from False have cur: "cursor < length para" and cl: "c < length para" by (simp_all add: c_def)
    have ns: "para ! c \<noteq> sp" using cl scan_stop [of "\<lambda>x. x = sp" para cursor] by (simp add: c_def)
    have ge: "cursor \<le> c" by (simp add: c_def scan_ge)
    from build_line_first [OF cl ns b] less.prems have "c < c'" by simp
    with ge cur have "length para - c' < length para - cursor" by simp
    from less.hyps [OF this less.prems] obtain rest where
      "wrap_lines para width pStart c' (n + 1) = Some rest" by blast
    with wrap_lines_step [OF cur c_def cl b, of n] show ?thesis by simp
  qed
qed

lemma wrap_lines_induct [consumes 1, case_names stop step]:
  assumes w: "wrap_lines para width pStart cursor n = Some ls"
    and stop: "\<And>cursor n. \<not> cursor < length para \<or> length para \<le> scan (\<lambda>x. x = sp) para cursor
                 \<Longrightarrow> P cursor n []"
    and step: "\<And>cursor n c c' t s e rest.
                 cursor < length para \<Longrightarrow> c = scan (\<lambda>x. x = sp) para cursor \<Longrightarrow> c < length para \<Longrightarrow>
                 build_line para width pStart c [] (pStart + c) (pStart + c) = (c', t, s, e) \<Longrightarrow>
                 wrap_lines para width pStart c' (n + 1) = Some rest \<Longrightarrow> P c' (n + 1) rest \<Longrightarrow>
                 P cursor n (\<lparr>lineNo = n, ltext = t, start = s, lend = e\<rparr> # rest)"
  shows "P cursor n ls"
  using w
proof (induction ls arbitrary: cursor n)
  case Nil
  show ?case
  proof (cases "\<not> cursor < length para \<or> length para \<le> scan (\<lambda>x. x = sp) para cursor")
    case True
    then show ?thesis by (rule stop)
  next
    case False
    define c where "c = scan (\<lambda>x. x = sp) para cursor"
    obtain c' t s e where b: "build_line para width pStart c [] (pStart + c) (pStart + c) = (c', t, s, e)"
      by (cases "build_line para width pStart c [] (pStart + c) (pStart + c)") auto
    from False have cur: "cursor < length para" and cl: "c < length para" by (simp_all add: c_def)
    from wrap_lines_step [OF cur c_def cl b, of n] Nil
    have "Option.bind (wrap_lines para width pStart c' (n + 1))
            (\<lambda>rest. Some (\<lparr>lineNo = n, ltext = t, start = s, lend = e\<rparr> # rest)) = Some []"
      by simp
    then show ?thesis by (auto simp: bind_eq_Some_conv)
  qed
next
  case (Cons v rest)
  show ?case
  proof (cases "\<not> cursor < length para \<or> length para \<le> scan (\<lambda>x. x = sp) para cursor")
    case True
    with Cons.prems show ?thesis by (simp add: wrap_lines_stop)
  next
    case False
    define c where "c = scan (\<lambda>x. x = sp) para cursor"
    obtain c' t s e where b: "build_line para width pStart c [] (pStart + c) (pStart + c) = (c', t, s, e)"
      by (cases "build_line para width pStart c [] (pStart + c) (pStart + c)") auto
    from False have cur: "cursor < length para" and cl: "c < length para" by (simp_all add: c_def)
    from wrap_lines_step [OF cur c_def cl b, of n] Cons.prems
    have "Option.bind (wrap_lines para width pStart c' (n + 1))
            (\<lambda>rest. Some (\<lparr>lineNo = n, ltext = t, start = s, lend = e\<rparr> # rest)) = Some (v # rest)"
      by simp
    then have r: "wrap_lines para width pStart c' (n + 1) = Some rest"
      and v: "v = \<lparr>lineNo = n, ltext = t, start = s, lend = e\<rparr>"
      by (auto simp: bind_eq_Some_conv)
    from step [OF cur c_def cl b r Cons.IH [OF r]] v show ?thesis by simp
  qed
qed

text \<open>Facts about the lines of one paragraph.\<close>

lemma wrap_lines_lineNo:
  "wrap_lines para width pStart cursor n = Some ls \<Longrightarrow> map lineNo ls = [n..<n + length ls]"
proof (induction rule: wrap_lines_induct)
  case (stop cursor n)
  show ?case by simp
next
  case (step cursor n c c' t s e rest)
  then show ?case by (simp add: upt_rec)
qed

lemma wrap_lines_bounds:
  "wrap_lines para width pStart cursor n = Some ls \<Longrightarrow> cursor \<le> length para \<Longrightarrow>
   (\<forall>v \<in> set ls. length (ltext v) \<le> width \<and> pStart + cursor \<le> start v \<and> start v \<le> lend v \<and>
                   lend v \<le> pStart + length para \<and> start v < pStart + length para)
   \<and> sorted_wrt (\<lambda>a b. lend a \<le> start b) ls"
proof (induction rule: wrap_lines_induct)
  case (stop cursor n)
  show ?case by simp
next
  case (step cursor n c c' t s e rest)
  have ns: "para ! c \<noteq> sp" using step(2,3) scan_stop [of "\<lambda>x. x = sp" para cursor] by simp
  have ge: "cursor \<le> c" using step(2) by (simp add: scan_ge)
  note f = build_line_first [OF step(3) ns step(4)]
  from f have "c' \<le> length para" by simp
  with step.IH have ih: "\<forall>v \<in> set rest. length (ltext v) \<le> width \<and> pStart + c' \<le> start v \<and> start v \<le> lend v \<and>
                   lend v \<le> pStart + length para \<and> start v < pStart + length para"
    and so: "sorted_wrt (\<lambda>a b. lend a \<le> start b) rest" by simp_all
  from f ih ge step(3) so show ?case by fastforce
qed


section \<open>Properties of the loop over the paragraphs\<close>

lemma para_end_eq: "i \<le> length s \<Longrightarrow> para_end s i = i + length (takeWhile (\<lambda>x. x \<noteq> nl) (drop i s))"
proof -
  assume a: "i \<le> length s"
  show ?thesis
  proof (cases "nl \<in> set (drop i s)")
    case True
    then show ?thesis by (simp add: para_end_def indexOf_def)
  next
    case False
    then have tw: "takeWhile (\<lambda>x. x \<noteq> nl) (drop i s) = drop i s"
      by (auto simp: takeWhile_eq_all_conv)
    have "length (takeWhile (\<lambda>x. x \<noteq> nl) (drop i s)) = length s - i"
      by (simp only: tw length_drop)
    with False a show ?thesis by (simp add: para_end_def indexOf_def)
  qed
qed

lemma para_end_bounds: "i \<le> length s \<Longrightarrow> i \<le> para_end s i \<and> para_end s i \<le> length s"
proof -
  assume a: "i \<le> length s"
  have "length (takeWhile (\<lambda>x. x \<noteq> nl) (drop i s)) \<le> length (drop i s)"
    by (rule length_takeWhile_le)
  with a show ?thesis by (simp add: para_end_eq)
qed


lemma length_slice_para: "i \<le> length s \<Longrightarrow> length (slice s i (para_end s i)) = para_end s i - i"
  using para_end_bounds [of i s] by (auto simp: slice_def min_def)


lemma para_end_first: "i \<le> k \<Longrightarrow> k < length s \<Longrightarrow> s ! k = nl \<Longrightarrow> para_end s i \<le> k"
proof (rule ccontr)
  assume a: "i \<le> k" "k < length s" "s ! k = nl" and n: "\<not> para_end s i \<le> k"
  let ?t = "takeWhile (\<lambda>x. x \<noteq> nl) (drop i s)"
  from a n have "k - i < length ?t" by (simp add: para_end_eq)
  then have "?t ! (k - i) \<noteq> nl" using nth_mem set_takeWhileD by fastforce
  moreover from \<open>k - i < length ?t\<close> have "?t ! (k - i) = drop i s ! (k - i)" by (rule takeWhile_nth)
  ultimately show False using a by simp
qed

lemma layout_from_unfold:
  assumes "i \<le> length s" "wrap_lines (slice s i (para_end s i)) width i 0 n = Some ls"
  shows "layout_from s width i n =
     (let el = empty_line (slice s i (para_end s i)) i (n + length ls) in
      if para_end s i = length s then Some (ls @ el)
      else (case layout_from s width (para_end s i + 1) (n + length ls + length el) of
              None \<Rightarrow> None | Some rest \<Rightarrow> Some (ls @ el @ rest)))"
  using assms by (subst layout_from.simps) (simp add: Let_def para_end_def empty_line_def)

lemma layout_from_None:
  assumes "i \<le> length s" "wrap_lines (slice s i (para_end s i)) width i 0 n = None"
  shows "layout_from s width i n = None"
  using assms by (subst layout_from.simps) (simp add: Let_def para_end_def)

lemma layout_from_Some:
  "1 \<le> width \<Longrightarrow> i \<le> length s \<Longrightarrow> \<exists>out. layout_from s width i n = Some out"
proof (induction "length s - i" arbitrary: i n rule: less_induct)
  case less
  obtain ls where w: "wrap_lines (slice s i (para_end s i)) width i 0 n = Some ls"
    using wrap_lines_Some [OF less.prems(1)] by blast
  note u = layout_from_unfold [OF less.prems(2) w]
  show ?case
  proof (cases "para_end s i = length s")
    case True
    with u show ?thesis by (simp add: Let_def)
  next
    case False
    with para_end_bounds [OF less.prems(2)] have lt: "para_end s i < length s" by simp
    with para_end_bounds [OF less.prems(2)] have "length s - (para_end s i + 1) < length s - i" by simp
    from less.hyps [OF this less.prems(1)] lt obtain rest where
      "layout_from s width (para_end s i + 1)
         (n + length ls + length (empty_line (slice s i (para_end s i)) i (n + length ls))) = Some rest"
      by fastforce
    with u False show ?thesis by (simp add: Let_def)
  qed
qed

lemma layout_from_induct [consumes 2, case_names last more]:
  assumes l: "layout_from s width i n = Some out" and i: "i \<le> length s"
    and last: "\<And>i n ls el. i \<le> length s \<Longrightarrow> para_end s i = length s \<Longrightarrow>
                 wrap_lines (slice s i (para_end s i)) width i 0 n = Some ls \<Longrightarrow>
                 el = empty_line (slice s i (para_end s i)) i (n + length ls) \<Longrightarrow> P i n (ls @ el)"
    and more: "\<And>i n ls el rest. i \<le> length s \<Longrightarrow> para_end s i < length s \<Longrightarrow>
                 wrap_lines (slice s i (para_end s i)) width i 0 n = Some ls \<Longrightarrow>
                 el = empty_line (slice s i (para_end s i)) i (n + length ls) \<Longrightarrow>
                 layout_from s width (para_end s i + 1) (n + length ls + length el) = Some rest \<Longrightarrow>
                 P (para_end s i + 1) (n + length ls + length el) rest \<Longrightarrow> P i n (ls @ el @ rest)"
  shows "P i n out"
  using l i
proof (induction "length s - i" arbitrary: i n out rule: less_induct)
  case less
  show ?case
  proof (cases "wrap_lines (slice s i (para_end s i)) width i 0 n")
    case None
    from layout_from_None [OF less.prems(2) None] less.prems(1) show ?thesis by simp
  next
    case (Some ls)
    define el where "el = empty_line (slice s i (para_end s i)) i (n + length ls)"
    note u = layout_from_unfold [OF less.prems(2) Some]
    show ?thesis
    proof (cases "para_end s i = length s")
      case True
      with u less.prems(1) have "out = ls @ el" by (simp add: Let_def el_def)
      with last [OF less.prems(2) True Some el_def] show ?thesis by simp
    next
      case False
      with para_end_bounds [OF less.prems(2)] have lt: "para_end s i < length s" by simp
      with para_end_bounds [OF less.prems(2)] have m: "length s - (para_end s i + 1) < length s - i" by simp
      from u False less.prems(1) obtain rest where
        r: "layout_from s width (para_end s i + 1) (n + length ls + length el) = Some rest"
        and o: "out = ls @ el @ rest"
        by (auto simp: Let_def el_def split: option.splits)
      have "para_end s i + 1 \<le> length s" using lt by simp
      from less.hyps [OF m r this] have "P (para_end s i + 1) (n + length ls + length el) rest" .
      from more [OF less.prems(2) lt Some el_def r this] o show ?thesis by simp
    qed
  qed
qed

lemma wrap_lines_empty: "wrap_lines [] width pStart 0 n = Some []"
  by (simp add: wrap_lines_stop)

lemma layout_from_props:
  "layout_from s width i n = Some out \<Longrightarrow> i \<le> length s \<Longrightarrow>
   map lineNo out = [n..<n + length out] \<and>
   (\<forall>v \<in> set out. length (ltext v) \<le> width \<and> i \<le> start v \<and> start v \<le> lend v \<and> lend v \<le> length s) \<and>
   sorted_wrt (\<lambda>a b. lend a \<le> start b) out"
proof (induction rule: layout_from_induct)
  case (last i n ls el)
  have len: "i + length (slice s i (para_end s i)) = para_end s i"
    using para_end_bounds [OF last(1)] by (simp add: length_slice_para [OF last(1)])
  note wl = wrap_lines_lineNo [OF last(3)]
  note wb = wrap_lines_bounds [OF last(3), simplified]
  have e: "slice s i (para_end s i) = [] \<Longrightarrow> ls = []"
    using last(3) by (simp add: wrap_lines_empty)
  have 1: "map lineNo (ls @ el) = [n..<n + length (ls @ el)]"
    using wl by (simp add: last(4) empty_line_def)
  have 2: "\<forall>v \<in> set (ls @ el). length (ltext v) \<le> width \<and> i \<le> start v \<and> start v \<le> lend v \<and> lend v \<le> length s"
    using wb len last(1,2) by (auto simp: last(4) empty_line_def)
  have 3: "sorted_wrt (\<lambda>a b. lend a \<le> start b) (ls @ el)"
    using wb e by (auto simp: last(4) empty_line_def)
  from 1 2 3 show ?case by blast
next
  case (more i n ls el rest)
  have len: "i + length (slice s i (para_end s i)) = para_end s i"
    using para_end_bounds [OF more(1)] by (simp add: length_slice_para [OF more(1)])
  note wl = wrap_lines_lineNo [OF more(3)]
  note wb = wrap_lines_bounds [OF more(3), simplified]
  have e: "slice s i (para_end s i) = [] \<Longrightarrow> ls = []"
    using more(3) by (simp add: wrap_lines_empty)
  have pe: "i \<le> para_end s i" using para_end_bounds [OF more(1)] by simp
  have ih1: "map lineNo rest = [n + length ls + length el..<n + length ls + length el + length rest]"
    and ih2: "\<forall>v \<in> set rest. length (ltext v) \<le> width \<and> para_end s i + 1 \<le> start v \<and> start v \<le> lend v \<and> lend v \<le> length s"
    and ih3: "sorted_wrt (\<lambda>a b. lend a \<le> start b) rest"
    using more.IH by simp_all
  have le1: "map lineNo (ls @ el) = [n..<n + length ls + length el]"
    using wl by (simp add: more(4) empty_line_def)
  have 1: "map lineNo (ls @ el @ rest) = [n..<n + length (ls @ el @ rest)]"
  proof -
    have "map lineNo (ls @ el @ rest) = [n..<n + length ls + length el] @ [n + length ls + length el..<n + length ls + length el + length rest]"
      using le1 ih1 by simp
    also have "\<dots> = [n..<n + length ls + length el + length rest]"
      by (metis le_add1 add.assoc upt_add_eq_append)
    finally show ?thesis by (simp add: add.assoc)
  qed
  have b1: "\<forall>v \<in> set (ls @ el). length (ltext v) \<le> width \<and> i \<le> start v \<and> start v \<le> lend v \<and> lend v \<le> para_end s i"
    using wb len pe by (auto simp: more(4) empty_line_def)
  have 2: "\<forall>v \<in> set (ls @ el @ rest). length (ltext v) \<le> width \<and> i \<le> start v \<and> start v \<le> lend v \<and> lend v \<le> length s"
  proof
    fix v
    assume "v \<in> set (ls @ el @ rest)"
    then consider "v \<in> set (ls @ el)" | "v \<in> set rest" by auto
    then show "length (ltext v) \<le> width \<and> i \<le> start v \<and> start v \<le> lend v \<and> lend v \<le> length s"
    proof cases
      case 1
      with b1 have "length (ltext v) \<le> width \<and> i \<le> start v \<and> start v \<le> lend v \<and> lend v \<le> para_end s i"
        by blast
      with more(2) show ?thesis by simp
    next
      case 2
      with ih2 have "length (ltext v) \<le> width \<and> para_end s i + 1 \<le> start v \<and> start v \<le> lend v \<and> lend v \<le> length s"
        by blast
      with pe show ?thesis by simp
    qed
  qed
  have s1: "sorted_wrt (\<lambda>a b. lend a \<le> start b) (ls @ el)"
    using wb e by (auto simp: more(4) empty_line_def)
  have cross: "\<forall>x \<in> set (ls @ el). \<forall>y \<in> set rest. lend x \<le> start y"
  proof (intro ballI)
    fix x y
    assume "x \<in> set (ls @ el)" "y \<in> set rest"
    with b1 ih2 have "lend x \<le> para_end s i" "para_end s i + 1 \<le> start y" by blast+
    then show "lend x \<le> start y" by simp
  qed
  have "sorted_wrt (\<lambda>a b. lend a \<le> start b) ((ls @ el) @ rest)"
    by (rule sorted_wrt_append [THEN iffD2]) (use s1 ih3 cross in blast)
  then have 3: "sorted_wrt (\<lambda>a b. lend a \<le> start b) (ls @ el @ rest)" by simp
  from 1 2 3 show ?case by blast
qed

section \<open>The claims about the layout\<close>

subsection \<open>The layout returns, and its lines are within bounds\<close>

lemma layout_total:
  assumes "1 \<le> width"
  shows "\<exists>out. layoutWordWrapWithOffsets s width = Some out \<and> out \<noteq> []"
proof -
  from layout_from_Some [OF assms, of 0 s 1] obtain out where "layout_from s width 0 1 = Some out"
    by auto
  then show ?thesis by (simp add: layoutWordWrapWithOffsets_def)
qed

lemma getVisualLines_total: "1 \<le> cols p \<Longrightarrow> \<exists>vis. getVisualLines p = Some vis \<and> vis \<noteq> []"
  unfolding getVisualLines_def by (rule layout_total)

lemma layout_props:
  assumes "layoutWordWrapWithOffsets s width = Some out"
  shows "map lineNo out = [1..<Suc (length out)] \<and>
         (\<forall>v \<in> set out. length (ltext v) \<le> width \<and> start v \<le> lend v \<and> lend v \<le> length s) \<and>
         sorted_wrt (\<lambda>a b. lend a \<le> start b) out"
proof (cases "layout_from s width 0 1")
  case None
  with assms show ?thesis by (simp add: layoutWordWrapWithOffsets_def)
next
  case (Some out0)
  note p = layout_from_props [OF Some, simplified]
  show ?thesis
  proof (cases "out0 = []")
    case True
    with Some assms have "out = [\<lparr>lineNo = 1, ltext = [], start = 0, lend = 0\<rparr>]"
      by (simp add: layoutWordWrapWithOffsets_def)
    then show ?thesis by simp
  next
    case False
    with Some assms have "out = out0" by (simp add: layoutWordWrapWithOffsets_def)
    with p show ?thesis by simp
  qed
qed

text \<open>
  Claim C6. For every buffer and every column width of at least 1 (the widths the kernel can
  be set to are 10 to 120), the layout returns, every visual line has \<open>start \<le> end\<close>,
  the end of each line is at most the start of the next one (for all adjacent lines of the
  buffer, so in particular for those of one paragraph), and the line numbers are
  1, 2, ..., the number of lines.
\<close>

theorem layout_offsets_ordered:
  assumes "1 \<le> width"
  shows "\<exists>out. layoutWordWrapWithOffsets s width = Some out \<and>
           (\<forall>v \<in> set out. start v \<le> lend v) \<and>
           (\<forall>k. Suc k < length out \<longrightarrow> lend (out ! k) \<le> start (out ! Suc k)) \<and>
           map lineNo out = [1..<Suc (length out)]"
proof -
  from layout_total [OF assms] obtain out where o: "layoutWordWrapWithOffsets s width = Some out"
    by blast
  note p = layout_props [OF o]
  from p have "sorted_wrt (\<lambda>a b. lend a \<le> start b) out" by simp
  then have "\<forall>k. Suc k < length out \<longrightarrow> lend (out ! k) \<le> start (out ! Suc k)"
    by (simp add: sorted_wrt_iff_nth_less)
  with o p show ?thesis by blast
qed

lemma layout_scenario_a:
  "layoutWordWrapWithOffsets ''hello world this is a test line'' 10 =
     Some [\<lparr>lineNo = 1, ltext = ''hello'', start = 0, lend = 5\<rparr>,
           \<lparr>lineNo = 2, ltext = ''world this'', start = 6, lend = 16\<rparr>,
           \<lparr>lineNo = 3, ltext = ''is a test'', start = 17, lend = 26\<rparr>,
           \<lparr>lineNo = 4, ltext = ''line'', start = 27, lend = 31\<rparr>]"
  by code_simp

theorem layout_offsets_ordered_witness:
  "(1::nat) \<le> 10 \<and>
   (\<exists>out. layoutWordWrapWithOffsets ''hello world this is a test line'' 10 = Some out \<and>
      length out = 4 \<and>
      (\<forall>v \<in> set out. start v \<le> lend v) \<and>
      (\<forall>k. Suc k < length out \<longrightarrow> lend (out ! k) \<le> start (out ! Suc k)) \<and>
      map lineNo out = [1..<Suc (length out)])"
  using layout_offsets_ordered [of 10 "''hello world this is a test line''"]
  by (simp add: layout_scenario_a)

section \<open>The claims about the state and the actions\<close>

text \<open>
  Claim C9. \<open>setCols\<close> ignores a width that is not finite or lies outside 10 to 120: the
  state, and so the previous column setting, is unchanged. A width within 10 to 120 is
  applied rounded down to an integer, which again lies within 10 to 120; nothing else of the
  state changes. \<open>setCols\<close> is a total function: no call throws.
\<close>

theorem setCols_range:
  "setCols p NaN = p \<and> setCols p PosInf = p \<and> setCols p NegInf = p \<and>
   (q < 10 \<or> 120 < q \<longrightarrow> setCols p (Fin q) = p) \<and>
   (10 \<le> q \<and> q \<le> 120 \<longrightarrow>
      setCols p (Fin q) = p\<lparr>cols := nat \<lfloor>q\<rfloor>\<rparr> \<and>
      of_nat (cols (setCols p (Fin q))) \<le> q \<and> q < of_nat (cols (setCols p (Fin q))) + 1 \<and>
      10 \<le> cols (setCols p (Fin q)) \<and> cols (setCols p (Fin q)) \<le> 120)"
proof -
  have a: "setCols p NaN = p \<and> setCols p PosInf = p \<and> setCols p NegInf = p"
    by (simp add: setCols_def)
  have b: "q < 10 \<or> 120 < q \<longrightarrow> setCols p (Fin q) = p"
    by (auto simp: setCols_def)
  have c: "10 \<le> q \<and> q \<le> 120 \<longrightarrow>
      setCols p (Fin q) = p\<lparr>cols := nat \<lfloor>q\<rfloor>\<rparr> \<and>
      of_nat (cols (setCols p (Fin q))) \<le> q \<and> q < of_nat (cols (setCols p (Fin q))) + 1 \<and>
      10 \<le> cols (setCols p (Fin q)) \<and> cols (setCols p (Fin q)) \<le> 120"
  proof
    assume r: "10 \<le> q \<and> q \<le> 120"
    then have f: "10 \<le> \<lfloor>q\<rfloor>" "\<lfloor>q\<rfloor> \<le> 120" by (simp_all add: le_floor_iff floor_le_iff)
    then have n: "10 \<le> nat \<lfloor>q\<rfloor>" "nat \<lfloor>q\<rfloor> \<le> 120" by linarith+
    have e: "setCols p (Fin q) = p\<lparr>cols := nat \<lfloor>q\<rfloor>\<rparr>" using r by (simp add: setCols_def)
    then have k: "cols (setCols p (Fin q)) = nat \<lfloor>q\<rfloor>" by simp
    have g: "of_nat (nat \<lfloor>q\<rfloor>) = (of_int \<lfloor>q\<rfloor> :: rat)" using f by simp
    have h1: "of_nat (cols (setCols p (Fin q))) \<le> q" unfolding k g by (rule of_int_floor_le)
    have h2: "q < of_nat (cols (setCols p (Fin q))) + 1" unfolding k g by linarith
    from e h1 h2 n k show "setCols p (Fin q) = p\<lparr>cols := nat \<lfloor>q\<rfloor>\<rparr> \<and>
      of_nat (cols (setCols p (Fin q))) \<le> q \<and> q < of_nat (cols (setCols p (Fin q))) + 1 \<and>
      10 \<le> cols (setCols p (Fin q)) \<and> cols (setCols p (Fin q)) \<le> 120"
      by (simp only: simp_thms)
  qed
  from a b c show ?thesis by blast
qed

lemma floor_example: "nat \<lfloor>21 / 2 :: rat\<rfloor> = 10"
  by code_simp

theorem setCols_range_witness:
  "setCols (createPaperKernel None) (Fin 121) = createPaperKernel None \<and>
   setCols (createPaperKernel None) (Fin 9) = createPaperKernel None \<and>
   cols (setCols (createPaperKernel None) (Fin (21 / 2))) = 10 \<and>
   cols (setCols (createPaperKernel None) (Fin 120)) = 120 \<and>
   cols (createPaperKernel None) = 26"
  using setCols_range [of "createPaperKernel None" 121] setCols_range [of "createPaperKernel None" 9]
    setCols_range [of "createPaperKernel None" "21 / 2"] setCols_range [of "createPaperKernel None" 120]
  by (simp add: createPaperKernel_def floor_example)

text \<open>
  Claim C8. With a column width of at least 1, \<open>write_append\<close> of a text that trims to
  the empty string returns \<open>ok = false\<close> with the reason code \<open>empty_text\<close>, reports
  the unchanged revision, and leaves the whole state (buffer text, revision, diff) as it was.
\<close>

theorem write_append_blank_rejected:
  assumes "1 \<le> cols p" "trim (case t of None \<Rightarrow> [] | Some x \<Rightarrow> x) = []"
  shows "write_append p t e =
           Returns (\<lparr>app_ok = False, app_op = ''write_append'', app_reason = Some ''empty_text'',
                     app_paper_rev = paper_rev p, app_highlightLines = None\<rparr>, p)"
proof -
  from getVisualLines_total [OF assms(1)] obtain vis where "getVisualLines p = Some vis" by blast
  with assms(2) show ?thesis by (simp add: write_append_def)
qed

lemma trim_blank_example: "trim [CHR '' '', CHR 0x09, CHR 0x0A, CHR '' ''] = []"
  by (simp add: trim_def is_ws_def)

theorem write_append_blank_rejected_witness:
  "1 \<le> cols (seed (createPaperKernel None) (Some ''abc'')) \<and>
   trim (case Some [CHR '' '', CHR 0x09, CHR 0x0A, CHR '' ''] of None \<Rightarrow> [] | Some x \<Rightarrow> x) = [] \<and>
   write_append (seed (createPaperKernel None) (Some ''abc'')) (Some [CHR '' '', CHR 0x09, CHR 0x0A, CHR '' '']) None =
     Returns (\<lparr>app_ok = False, app_op = ''write_append'', app_reason = Some ''empty_text'',
               app_paper_rev = 1, app_highlightLines = None\<rparr>,
              \<lparr>cols = 26, paper_rev = 1, ptext = ''abc'', diff = None\<rparr>)"
proof -
  have c: "1 \<le> cols (seed (createPaperKernel None) (Some ''abc''))"
    by (simp add: seed_def createPaperKernel_def)
  have t: "trim (case Some [CHR '' '', CHR 0x09, CHR 0x0A, CHR '' ''] of None \<Rightarrow> [] | Some x \<Rightarrow> x) = []"
    by (simp add: trim_blank_example)
  from write_append_blank_rejected [OF c t, of None] c t show ?thesis
    by (simp add: seed_def createPaperKernel_def)
qed

subsection \<open>Replacing, clearing and appending\<close>

text \<open>
  Every \<open>write_replace\<close>, \<open>clear_all\<close> and accepted \<open>write_append\<close> that returns
  has advanced the revision by one: the increment does not depend on the text having
  changed.
\<close>

lemma setDiff_keeps: "setDiff p a rt rl hl = Returns p' \<Longrightarrow> paper_rev p' = paper_rev p \<and> ptext p' = ptext p \<and> cols p' = cols p"
  by (auto simp: setDiff_def Let_def split: option.splits)

lemma writeReplaceInternal_advances:
  assumes "writeReplaceInternal p a t = Returns (r, p')"
  shows "res_ok r \<and> paper_rev p' = paper_rev p + 1 \<and> res_paper_rev r = paper_rev p + 1"
proof -
  from assms obtain vis target p1 afterVis hl rt rl N where
    s: "setDiff p1 N rt rl hl = Returns p'" and p1: "paper_rev p1 = paper_rev p + 1"
    and r: "res_ok r" "res_paper_rev r = paper_rev p'"
    by (auto simp: writeReplaceInternal_def Let_def split: option.splits outcome.splits)
  from setDiff_keeps [OF s] p1 r show ?thesis by simp
qed

lemma write_replace_advances:
  assumes "write_replace p a t = Returns (r, p')"
  shows "res_ok r \<and> paper_rev p' = paper_rev p + 1 \<and> res_paper_rev r = paper_rev p + 1"
proof -
  from assms obtain r0 where "writeReplaceInternal p a t = Returns (r0, p')" "r = r0\<lparr>res_op := ''write_replace''\<rparr>"
    by (auto simp: write_replace_def split: outcome.splits)
  with writeReplaceInternal_advances [of p a t r0 p'] show ?thesis by simp
qed

lemma clear_all_advances:
  assumes "clear_all p = Returns (r, p')"
  shows "ca_ok r \<and> paper_rev p' = paper_rev p + 1 \<and> ptext p' = []"
proof -
  from assms obtain p1 rl where
    s: "setDiff p1 (Fin 1) None rl [] = Returns p'" and p1: "paper_rev p1 = paper_rev p + 1" "ptext p1 = []"
    and r: "ca_ok r"
    by (auto simp: clear_all_def Let_def split: option.splits outcome.splits)
  from setDiff_keeps [OF s] p1 r show ?thesis by simp
qed

lemma write_append_advances:
  assumes "write_append p t e = Returns (r, p')" "app_ok r"
  shows "paper_rev p' = paper_rev p + 1 \<and> ptext p' \<noteq> ptext p"
proof -
  from assms obtain p1 a hl where
    s: "setDiff p1 a None None hl = Returns p'" and p1: "paper_rev p1 = paper_rev p + 1" "ptext p1 \<noteq> ptext p"
    by (auto simp: write_append_def Let_def split: option.splits outcome.splits if_splits)
  from setDiff_keeps [OF s] p1 show ?thesis by simp
qed

text \<open>
  Claim C1, evaluated at \<open>seed("abc")\<close> followed by
  \<open>write_replace(anchorLine = 1, newText = "abc")\<close>: the replacement equals the prior
  content of the target span, the buffer text stays \<open>abc\<close>, and yet the revision goes
  from 1 to 2. The result record has the fields shown and no \<open>changed\<close> field.
\<close>

theorem write_replace_same_text_advances_rev:
  "ptext (seed (createPaperKernel None) (Some ''abc'')) = ''abc'' \<and>
   paper_rev (seed (createPaperKernel None) (Some ''abc'')) = 1 \<and>
   write_replace (seed (createPaperKernel None) (Some ''abc'')) (Fin 1) (Some ''abc'') =
     Returns (\<lparr>res_ok = True, res_anchorLine = Fin 1, res_removedText = Some ''abc'',
               res_removedLines = None, res_paper_rev = 2, res_highlightLines = [1],
               res_op = ''write_replace''\<rparr>,
              \<lparr>cols = 26, paper_rev = 2, ptext = ''abc'',
               diff = Some \<lparr>anchorLine = Fin 1, removedText = Some ''abc'', removedLines = None,
                            highlightLines = [1],
                            annot = \<lparr>startLine = Fin 1,
                                     htmlLines = [span_open @ ''abc'' @ ''</span>'']\<rparr>\<rparr>\<rparr>)"
  by code_simp

text \<open>
  A \<open>write_replace\<close> whose text normalizes to the empty string reports the text of the
  target line as the one removed line, and no removed text.
\<close>

lemma write_replace_clear_removed:
  assumes "write_replace p a t = Returns (r, p')"
    and "trim (collapse_ws (case t of None \<Rightarrow> [] | Some x \<Rightarrow> x)) = []"
  shows "res_removedText r = None \<and>
         (\<exists>vis target. getVisualLines p = Some vis \<and>
            js_index vis (js_plus (res_anchorLine r) (- 1)) = Some target \<and>
            res_removedLines r = Some [ltext target])"
  using assms
  by (auto simp: write_replace_def writeReplaceInternal_def Let_def split: option.splits outcome.splits)

text \<open>
  Claim C3, evaluated on the three-line buffer \<open>aa bbbbbbbbb cc\<close> at 10 columns:
  \<open>write_replace(anchorLine = 2, newText = "")\<close> returns
  \<open>removedLines = ["bbbbbbbbb"]\<close> and \<open>removedText = null\<close>, but
  \<open>highlightLines = [1]\<close>: after the edit the buffer is \<open>aa  cc\<close>, its single visual
  line spans the offsets 0 to 6, and the empty inserted range at offset 3 lies strictly
  inside it.
\<close>

theorem write_replace_clear_highlights_line:
  "getVisualLines (setCols (seed (createPaperKernel None) (Some ''aa bbbbbbbbb cc'')) (Fin 10)) =
     Some [\<lparr>lineNo = 1, ltext = ''aa'', start = 0, lend = 2\<rparr>,
           \<lparr>lineNo = 2, ltext = ''bbbbbbbbb'', start = 3, lend = 12\<rparr>,
           \<lparr>lineNo = 3, ltext = ''cc'', start = 13, lend = 15\<rparr>] \<and>
   write_replace (setCols (seed (createPaperKernel None) (Some ''aa bbbbbbbbb cc'')) (Fin 10)) (Fin 2) (Some []) =
     Returns (\<lparr>res_ok = True, res_anchorLine = Fin 2, res_removedText = None,
               res_removedLines = Some [''bbbbbbbbb''], res_paper_rev = 2, res_highlightLines = [1],
               res_op = ''write_replace''\<rparr>,
              \<lparr>cols = 10, paper_rev = 2, ptext = ''aa  cc'',
               diff = Some \<lparr>anchorLine = Fin 2, removedText = None, removedLines = Some [''bbbbbbbbb''],
                            highlightLines = [1],
                            annot = \<lparr>startLine = Fin 1,
                                     htmlLines = [span_open @ ''aa cc'' @ ''</span>'']\<rparr>\<rparr>\<rparr>)"
  by code_simp

subsection \<open>Reading a range of lines\<close>

lemma layout_nonempty: "layoutWordWrapWithOffsets s width = Some out \<Longrightarrow> out \<noteq> []"
  by (auto simp: layoutWordWrapWithOffsets_def split: option.splits if_splits)

lemma rel_index_in_range: "0 \<le> q \<Longrightarrow> q \<le> of_nat n \<Longrightarrow> rel_index n (Fin q) = nat \<lfloor>q\<rfloor>"
proof -
  assume a: "0 \<le> q" "q \<le> of_nat n"
  then have "0 \<le> \<lfloor>q\<rfloor>" by simp
  moreover from a have "\<lfloor>q\<rfloor> \<le> int n" by (simp add: floor_le_iff)
  ultimately show ?thesis using a by (simp add: Let_def)
qed

lemma read_int:
  assumes v: "getVisualLines p = Some vis" and x: "1 \<le> x" "x \<le> int (length vis)"
  shows "\<exists>r. read p (Fin (of_int x)) (Fin (of_int y)) = Returns (r, p) \<and>
           rd_startLine r = Fin (of_int x) \<and>
           rd_endLine r = Fin (of_int (if x \<le> y then min y (int (length vis)) else x)) \<and>
           rd_lines r = take (nat (if x \<le> y then min y (int (length vis)) else x) - nat (x - 1)) (drop (nat (x - 1)) vis)"
proof -
  let ?n = "of_nat (length vis) :: rat"
  have x0: "(of_int x :: rat) \<noteq> 0" using x by simp
  have x1: "(1::rat) \<le> of_int x" using x by simp
  have xn: "(of_int x :: rat) \<le> ?n" using x(2) by (metis of_int_le_iff of_int_of_nat_eq)
  have s: "js_max (Fin 1) (js_min (js_or (Fin (of_int x)) (Fin 1)) (Fin ?n)) = Fin (of_int x)"
    using x0 x1 xn by (simp add: js_or_def min_def max_def)
  define ey where "ey = (if x \<le> y then min y (int (length vis)) else x)"
  have ey: "x \<le> ey" "ey \<le> int (length vis)" using x by (auto simp: ey_def)
  have eyn: "(of_int ey :: rat) \<le> ?n" using ey(2) by (metis of_int_le_iff of_int_of_nat_eq)
  have e: "js_max (Fin (of_int x)) (js_min (js_or (Fin (of_int y)) (Fin (of_int x))) (Fin ?n)) = Fin (of_int ey)"
  proof (cases "x \<le> y")
    case True
    then have y0: "(of_int y :: rat) \<noteq> 0" using x by simp
    have m: "min (of_int y :: rat) ?n = of_int (min y (int (length vis)))"
      by (metis of_int_min of_int_of_nat_eq)
    have "x \<le> min y (int (length vis))" using True x by simp
    then have "(of_int x :: rat) \<le> of_int (min y (int (length vis)))" by (simp only: of_int_le_iff)
    then have "max (of_int x :: rat) (of_int (min y (int (length vis)))) = of_int (min y (int (length vis)))"
      by (simp only: max_def if_True)
    with True y0 m show ?thesis by (simp add: js_or_def ey_def)
  next
    case False
    then have ee: "ey = x" by (simp add: ey_def)
    show ?thesis
    proof (cases "y = 0")
      case True
      with x0 xn show ?thesis by (simp add: js_or_def ee min_def)
    next
      case y: False
      then have y0: "(of_int y :: rat) \<noteq> 0" by simp
      from False xn have "(of_int y :: rat) \<le> ?n" by (simp add: order_trans [OF _ xn])
      moreover from False have "(of_int y :: rat) \<le> of_int x" by simp
      ultimately show ?thesis using y0 by (simp add: js_or_def ee min_def max_def)
    qed
  qed
  have r1: "rel_index (length vis) (Fin (of_int x - 1)) = nat (x - 1)"
  proof -
    have "rel_index (length vis) (Fin (of_int (x - 1))) = nat \<lfloor>(of_int (x - 1) :: rat)\<rfloor>"
      using x1 xn by (intro rel_index_in_range) simp_all
    then show ?thesis by simp
  qed
  have r2: "rel_index (length vis) (Fin (of_int ey)) = nat ey"
  proof -
    have "(0::rat) \<le> of_int ey" using ey x by simp
    then have "rel_index (length vis) (Fin (of_int ey)) = nat \<lfloor>(of_int ey :: rat)\<rfloor>"
      using eyn by (intro rel_index_in_range)
    then show ?thesis by simp
  qed
  have sl: "js_slice vis (Fin (of_int x - 1)) (Fin (of_int ey)) = take (nat ey - nat (x - 1)) (drop (nat (x - 1)) vis)"
    unfolding js_slice_def Let_def r1 r2 ..
  from v s e sl show ?thesis unfolding ey_def by (simp add: read_def Let_def)
qed

lemma clamp_start_exact:
  assumes "1 \<le> n"
  shows "js_max (Fin 1) (js_min (js_or a (Fin 1)) (Fin (of_nat n))) = Fin (nearest 1 (of_nat n) a) \<and>
         1 \<le> nearest 1 (of_nat n) a \<and> nearest 1 (of_nat n) a \<le> of_nat n"
proof -
  have n: "(1::rat) \<le> of_nat n" using assms by simp
  show ?thesis
  proof (cases a)
    case (Fin q)
    with n show ?thesis by (auto simp: js_or_def nearest_def min_def max_def)
  qed (use n in \<open>simp_all add: js_or_def nearest_def\<close>)
qed

lemma clamp_end_exact:
  assumes "1 \<le> s" "s \<le> of_nat n"
  shows "js_max (Fin s) (js_min (js_or b (Fin s)) (Fin (of_nat n))) = Fin (nearest s (of_nat n) b) \<and>
         s \<le> nearest s (of_nat n) b \<and> nearest s (of_nat n) b \<le> of_nat n"
proof (cases b)
  case (Fin q)
  with assms show ?thesis by (auto simp: js_or_def nearest_def min_def max_def)
qed (use assms in \<open>simp_all add: js_or_def nearest_def\<close>)

lemma read_exact:
  assumes v: "getVisualLines p = Some vis"
  shows "\<exists>r s e. read p a b = Returns (r, p) \<and> rd_rev r = paper_rev p \<and>
           rd_startLine r = Fin s \<and> rd_endLine r = Fin e \<and>
           s = nearest 1 (of_nat (length vis)) a \<and> e = nearest s (of_nat (length vis)) b \<and>
           1 \<le> s \<and> s \<le> e \<and> e \<le> of_nat (length vis) \<and>
           rd_lines r = take (nat \<lfloor>e\<rfloor> - nat \<lfloor>s - 1\<rfloor>) (drop (nat \<lfloor>s - 1\<rfloor>) vis)"
proof -
  from v have "vis \<noteq> []" by (simp add: getVisualLines_def layout_nonempty)
  then have n: "1 \<le> length vis" by (cases vis) simp_all
  define s where "s = nearest 1 (of_nat (length vis)) a"
  define e where "e = nearest s (of_nat (length vis)) b"
  from clamp_start_exact [OF n, of a] have
    s: "js_max (Fin 1) (js_min (js_or a (Fin 1)) (Fin (of_nat (length vis)))) = Fin s" "1 \<le> s" "s \<le> of_nat (length vis)"
    by (simp_all add: s_def)
  from clamp_end_exact [OF s(2,3), of b] have
    e: "js_max (Fin s) (js_min (js_or b (Fin s)) (Fin (of_nat (length vis)))) = Fin e" "s \<le> e" "e \<le> of_nat (length vis)"
    by (simp_all add: e_def)
  have r1: "rel_index (length vis) (Fin (s - 1)) = nat \<lfloor>s - 1\<rfloor>"
    using s by (intro rel_index_in_range) simp_all
  have r2: "rel_index (length vis) (Fin e) = nat \<lfloor>e\<rfloor>"
    using s e by (intro rel_index_in_range) simp_all
  have sl: "js_slice vis (Fin (s - 1)) (Fin e) = take (nat \<lfloor>e\<rfloor> - nat \<lfloor>s - 1\<rfloor>) (drop (nat \<lfloor>s - 1\<rfloor>) vis)"
    unfolding js_slice_def Let_def r1 r2 ..
  have "read p a b = Returns (\<lparr>rd_rev = paper_rev p, rd_startLine = Fin s, rd_endLine = Fin e,
          rd_lines = take (nat \<lfloor>e\<rfloor> - nat \<lfloor>s - 1\<rfloor>) (drop (nat \<lfloor>s - 1\<rfloor>) vis)\<rparr>, p)"
    using v s(1) e(1) sl by (simp add: read_def Let_def)
  with s e s_def e_def show ?thesis by simp
qed

lemma nearest_of_int:
  "nearest (of_int lo) (of_int hi) (Fin (of_int x)) = of_int (nearest_int lo hi x)"
  by (simp add: nearest_def nearest_int_def)

lemma read_int_exact:
  assumes v: "getVisualLines p = Some vis"
  shows "\<exists>r. read p (Fin (of_int x)) (Fin (of_int y)) = Returns (r, p) \<and>
           rd_startLine r = Fin (of_int (nearest_int 1 (int (length vis)) x)) \<and>
           rd_endLine r = Fin (of_int (nearest_int (nearest_int 1 (int (length vis)) x) (int (length vis)) y)) \<and>
           rd_lines r =
             take (nat (nearest_int (nearest_int 1 (int (length vis)) x) (int (length vis)) y)
                   - nat (nearest_int 1 (int (length vis)) x - 1))
               (drop (nat (nearest_int 1 (int (length vis)) x - 1)) vis)"
proof -
  define sx where "sx = nearest_int 1 (int (length vis)) x"
  define ey where "ey = nearest_int sx (int (length vis)) y"
  from read_exact [OF v, of "Fin (of_int x)" "Fin (of_int y)"] obtain r s e where
    r: "read p (Fin (of_int x)) (Fin (of_int y)) = Returns (r, p)"
    and rs: "rd_startLine r = Fin s" and re: "rd_endLine r = Fin e"
    and sd: "s = nearest 1 (of_nat (length vis)) (Fin (of_int x))"
    and ed: "e = nearest s (of_nat (length vis)) (Fin (of_int y))"
    and rl: "rd_lines r = take (nat \<lfloor>e\<rfloor> - nat \<lfloor>s - 1\<rfloor>) (drop (nat \<lfloor>s - 1\<rfloor>) vis)"
    by blast
  have "nearest (of_int 1) (of_int (int (length vis))) (Fin (of_int x)) = of_int sx"
    unfolding sx_def by (rule nearest_of_int)
  with sd have s: "s = of_int sx" by simp
  have "nearest (of_int sx) (of_int (int (length vis))) (Fin (of_int y)) = of_int ey"
    unfolding ey_def by (rule nearest_of_int)
  with ed s have e: "e = of_int ey" by simp
  have f: "\<lfloor>s - 1\<rfloor> = sx - 1" "\<lfloor>e\<rfloor> = ey" unfolding s e by simp_all
  have "read p (Fin (of_int x)) (Fin (of_int y)) = Returns (r, p) \<and>
        rd_startLine r = Fin (of_int sx) \<and> rd_endLine r = Fin (of_int ey) \<and>
        rd_lines r = take (nat ey - nat (sx - 1)) (drop (nat (sx - 1)) vis)"
    using r rs re rl unfolding f s e by simp
  then show ?thesis unfolding ey_def sx_def by (rule exI)
qed

lemma three_line_layout:
  "getVisualLines (seed (createPaperKernel None) (Some [CHR ''a'', nl, CHR ''b'', nl, CHR ''c''])) =
     Some [\<lparr>lineNo = 1, ltext = ''a'', start = 0, lend = 1\<rparr>,
           \<lparr>lineNo = 2, ltext = ''b'', start = 2, lend = 3\<rparr>,
           \<lparr>lineNo = 3, ltext = ''c'', start = 4, lend = 5\<rparr>]"
  by code_simp

text \<open>
  Claim C2 as stated fails: on the buffer of the three lines \<open>a\<close>, \<open>b\<close>, \<open>c\<close>,
  \<open>read(3, 1)\<close> returns line 3 alone, while \<open>read(1, 3)\<close> returns lines 1 to 3.
  Reversed bounds are not swapped.
\<close>

theorem read_reversed_not_swapped:
  "read (seed (createPaperKernel None) (Some [CHR ''a'', nl, CHR ''b'', nl, CHR ''c''])) (Fin 3) (Fin 1) =
     Returns (\<lparr>rd_rev = 1, rd_startLine = Fin 3, rd_endLine = Fin 3,
               rd_lines = [\<lparr>lineNo = 3, ltext = ''c'', start = 4, lend = 5\<rparr>]\<rparr>,
              seed (createPaperKernel None) (Some [CHR ''a'', nl, CHR ''b'', nl, CHR ''c''])) \<and>
   read (seed (createPaperKernel None) (Some [CHR ''a'', nl, CHR ''b'', nl, CHR ''c''])) (Fin 1) (Fin 3) =
     Returns (\<lparr>rd_rev = 1, rd_startLine = Fin 1, rd_endLine = Fin 3,
               rd_lines = [\<lparr>lineNo = 1, ltext = ''a'', start = 0, lend = 1\<rparr>,
                           \<lparr>lineNo = 2, ltext = ''b'', start = 2, lend = 3\<rparr>,
                           \<lparr>lineNo = 3, ltext = ''c'', start = 4, lend = 5\<rparr>]\<rparr>,
              seed (createPaperKernel None) (Some [CHR ''a'', nl, CHR ''b'', nl, CHR ''c'']))"
  by code_simp

text \<open>
  Claim C2, amended. Whenever the layout returns, \<open>read\<close> returns, leaves the state as it
  was and reports the current revision. It clamps: the start line reported is exactly the
  value of 1 to the line count nearest to \<open>startLine\<close> (1 below the range and for a value
  that is not a number or is 0, the line count above it), the end line reported is exactly
  the value nearest to \<open>endLine\<close> of the range from that start to the line count (that
  start when \<open>endLine\<close> is below it, not a number or 0), and the lines returned are exactly
  those from the one to the other. This holds for every pair of numbers, and is stated again
  for every pair of integers. It does not swap reversed bounds: for integers
  \<open>1 \<le> x \<le> y \<le> lineCount\<close> it returns the lines \<open>x\<close> to \<open>y\<close>, and with
  \<open>y < x\<close> the end is raised to the start and the single line \<open>x\<close> is returned. On a
  buffer of three visual lines \<open>read(-5, 99999)\<close> returns exactly the lines 1 to 3.
\<close>

theorem read_clamps_without_swap:
  assumes v: "getVisualLines p = Some vis"
  shows "(\<exists>r s e. read p a b = Returns (r, p) \<and> rd_rev r = paper_rev p \<and>
            rd_startLine r = Fin s \<and> rd_endLine r = Fin e \<and>
            s = nearest 1 (of_nat (length vis)) a \<and> e = nearest s (of_nat (length vis)) b \<and>
            1 \<le> s \<and> s \<le> e \<and> e \<le> of_nat (length vis) \<and>
            rd_lines r = take (nat \<lfloor>e\<rfloor> - nat \<lfloor>s - 1\<rfloor>) (drop (nat \<lfloor>s - 1\<rfloor>) vis)) \<and>
         (\<exists>r. read p (Fin (of_int x)) (Fin (of_int y)) = Returns (r, p) \<and>
            rd_startLine r = Fin (of_int (nearest_int 1 (int (length vis)) x)) \<and>
            rd_endLine r = Fin (of_int (nearest_int (nearest_int 1 (int (length vis)) x) (int (length vis)) y)) \<and>
            rd_lines r =
              take (nat (nearest_int (nearest_int 1 (int (length vis)) x) (int (length vis)) y)
                    - nat (nearest_int 1 (int (length vis)) x - 1))
                (drop (nat (nearest_int 1 (int (length vis)) x - 1)) vis)) \<and>
         (1 \<le> x \<and> x \<le> y \<and> y \<le> int (length vis) \<longrightarrow>
            (\<exists>r. read p (Fin (of_int x)) (Fin (of_int y)) = Returns (r, p) \<and>
                 rd_startLine r = Fin (of_int x) \<and> rd_endLine r = Fin (of_int y) \<and>
                 rd_lines r = take (nat (y - x + 1)) (drop (nat (x - 1)) vis))) \<and>
         (1 \<le> x \<and> x \<le> int (length vis) \<and> y < x \<longrightarrow>
            (\<exists>r. read p (Fin (of_int x)) (Fin (of_int y)) = Returns (r, p) \<and>
                 rd_startLine r = Fin (of_int x) \<and> rd_endLine r = Fin (of_int x) \<and>
                 rd_lines r = [vis ! nat (x - 1)])) \<and>
         (length vis = 3 \<longrightarrow>
            (\<exists>r. read p (Fin (- 5)) (Fin 99999) = Returns (r, p) \<and>
                 rd_startLine r = Fin 1 \<and> rd_endLine r = Fin 3 \<and> rd_lines r = vis))"
proof -
  note g = read_exact [OF v, of a b]
  note h = read_int_exact [OF v, of x y]
  have i1: "1 \<le> x \<and> x \<le> y \<and> y \<le> int (length vis) \<longrightarrow>
            (\<exists>r. read p (Fin (of_int x)) (Fin (of_int y)) = Returns (r, p) \<and>
                 rd_startLine r = Fin (of_int x) \<and> rd_endLine r = Fin (of_int y) \<and>
                 rd_lines r = take (nat (y - x + 1)) (drop (nat (x - 1)) vis))"
  proof
    assume h: "1 \<le> x \<and> x \<le> y \<and> y \<le> int (length vis)"
    then have x: "1 \<le> x" "x \<le> int (length vis)" by simp_all
    from h have m: "min y (int (length vis)) = y" by simp
    from h have d: "nat y - nat (x - 1) = nat (y - x + 1)" by linarith
    from read_int [OF v x, of y] h show "\<exists>r. read p (Fin (of_int x)) (Fin (of_int y)) = Returns (r, p) \<and>
                 rd_startLine r = Fin (of_int x) \<and> rd_endLine r = Fin (of_int y) \<and>
                 rd_lines r = take (nat (y - x + 1)) (drop (nat (x - 1)) vis)"
      by (simp add: m d)
  qed
  have i2: "1 \<le> x \<and> x \<le> int (length vis) \<and> y < x \<longrightarrow>
            (\<exists>r. read p (Fin (of_int x)) (Fin (of_int y)) = Returns (r, p) \<and>
                 rd_startLine r = Fin (of_int x) \<and> rd_endLine r = Fin (of_int x) \<and>
                 rd_lines r = [vis ! nat (x - 1)])"
  proof
    assume h: "1 \<le> x \<and> x \<le> int (length vis) \<and> y < x"
    then have x: "1 \<le> x" "x \<le> int (length vis)" by simp_all
    from h have d: "nat x - nat (x - 1) = Suc 0" by linarith
    from h have k: "nat (x - 1) < length vis" by linarith
    have t: "take (Suc 0) (drop (nat (x - 1)) vis) = [vis ! nat (x - 1)]"
      using k by (simp add: Cons_nth_drop_Suc [symmetric])
    from read_int [OF v x, of y] h show "\<exists>r. read p (Fin (of_int x)) (Fin (of_int y)) = Returns (r, p) \<and>
                 rd_startLine r = Fin (of_int x) \<and> rd_endLine r = Fin (of_int x) \<and>
                 rd_lines r = [vis ! nat (x - 1)]"
      by (simp add: d t)
  qed
  have i3: "length vis = 3 \<longrightarrow>
            (\<exists>r. read p (Fin (- 5)) (Fin 99999) = Returns (r, p) \<and>
                 rd_startLine r = Fin 1 \<and> rd_endLine r = Fin 3 \<and> rd_lines r = vis)"
    using v by (simp add: read_def js_or_def js_slice_def Let_def)
  from g h i1 i2 i3 show ?thesis by (intro conjI)
qed

theorem read_clamps_without_swap_witness:
  "getVisualLines (seed (createPaperKernel None) (Some [CHR ''a'', nl, CHR ''b'', nl, CHR ''c''])) =
     Some [\<lparr>lineNo = 1, ltext = ''a'', start = 0, lend = 1\<rparr>,
           \<lparr>lineNo = 2, ltext = ''b'', start = 2, lend = 3\<rparr>,
           \<lparr>lineNo = 3, ltext = ''c'', start = 4, lend = 5\<rparr>] \<and>
   (\<exists>r. read (seed (createPaperKernel None) (Some [CHR ''a'', nl, CHR ''b'', nl, CHR ''c''])) (Fin 99) (Fin 99) =
          Returns (r, seed (createPaperKernel None) (Some [CHR ''a'', nl, CHR ''b'', nl, CHR ''c''])) \<and>
        rd_startLine r = Fin 3 \<and> rd_endLine r = Fin 3 \<and>
        rd_lines r = [\<lparr>lineNo = 3, ltext = ''c'', start = 4, lend = 5\<rparr>]) \<and>
   (\<exists>r. read (seed (createPaperKernel None) (Some [CHR ''a'', nl, CHR ''b'', nl, CHR ''c''])) (Fin 3) (Fin 1) =
          Returns (r, seed (createPaperKernel None) (Some [CHR ''a'', nl, CHR ''b'', nl, CHR ''c''])) \<and>
        rd_startLine r = Fin 3 \<and> rd_endLine r = Fin 3 \<and>
        rd_lines r = [\<lparr>lineNo = 3, ltext = ''c'', start = 4, lend = 5\<rparr>]) \<and>
   (\<exists>r. read (seed (createPaperKernel None) (Some [CHR ''a'', nl, CHR ''b'', nl, CHR ''c''])) (Fin (- 5)) (Fin 99999) =
          Returns (r, seed (createPaperKernel None) (Some [CHR ''a'', nl, CHR ''b'', nl, CHR ''c''])) \<and>
        rd_startLine r = Fin 1 \<and> rd_endLine r = Fin 3 \<and>
        rd_lines r = [\<lparr>lineNo = 1, ltext = ''a'', start = 0, lend = 1\<rparr>,
                      \<lparr>lineNo = 2, ltext = ''b'', start = 2, lend = 3\<rparr>,
                      \<lparr>lineNo = 3, ltext = ''c'', start = 4, lend = 5\<rparr>])"
proof -
  let ?P = "seed (createPaperKernel None) (Some [CHR ''a'', nl, CHR ''b'', nl, CHR ''c''])"
  let ?V = "[\<lparr>lineNo = 1, ltext = ''a'', start = 0, lend = 1\<rparr>,
             \<lparr>lineNo = 2, ltext = ''b'', start = 2, lend = 3\<rparr>,
             \<lparr>lineNo = 3, ltext = ''c'', start = 4, lend = 5\<rparr>]"
  note t = read_clamps_without_swap [OF three_line_layout, of "Fin 99" "Fin 99" 3 1]
  have n3: "nearest 1 (of_nat (length ?V)) (Fin 99) = 3" by (simp add: nearest_def)
  have n4: "nearest 3 (of_nat (length ?V)) (Fin 99) = 3" by (simp add: nearest_def)
  from t [THEN conjunct1] obtain r s e where
    r: "read ?P (Fin 99) (Fin 99) = Returns (r, ?P)" "rd_startLine r = Fin s" "rd_endLine r = Fin e"
      "s = nearest 1 (of_nat (length ?V)) (Fin 99)" "e = nearest s (of_nat (length ?V)) (Fin 99)"
      "rd_lines r = take (nat \<lfloor>e\<rfloor> - nat \<lfloor>s - 1\<rfloor>) (drop (nat \<lfloor>s - 1\<rfloor>) ?V)"
    by blast
  from r(4) n3 have s: "s = 3" by simp
  from r(5) s n4 have e: "e = 3" by simp
  have a: "\<exists>r. read ?P (Fin 99) (Fin 99) = Returns (r, ?P) \<and> rd_startLine r = Fin 3 \<and> rd_endLine r = Fin 3 \<and>
        rd_lines r = [\<lparr>lineNo = 3, ltext = ''c'', start = 4, lend = 5\<rparr>]"
    using r(1,2,3,6) unfolding s e by auto
  have b: "\<exists>r. read ?P (Fin 3) (Fin 1) = Returns (r, ?P) \<and> rd_startLine r = Fin 3 \<and> rd_endLine r = Fin 3 \<and>
        rd_lines r = [\<lparr>lineNo = 3, ltext = ''c'', start = 4, lend = 5\<rparr>]"
    using t [THEN conjunct2, THEN conjunct2, THEN conjunct2, THEN conjunct1] by simp
  have c: "\<exists>r. read ?P (Fin (- 5)) (Fin 99999) = Returns (r, ?P) \<and> rd_startLine r = Fin 1 \<and> rd_endLine r = Fin 3 \<and>
        rd_lines r = ?V"
    using t [THEN conjunct2, THEN conjunct2, THEN conjunct2, THEN conjunct2] by simp
  from three_line_layout a b c show ?thesis by (intro conjI)
qed

section \<open>The claims about paragraphs\<close>

subsection \<open>Blank and empty paragraphs\<close>

lemma wrap_lines_blank:
  assumes "\<forall>c \<in> set para. c = sp"
  shows "wrap_lines para width pStart 0 n = Some []"
proof -
  from assms have "takeWhile (\<lambda>x. x = sp) para = para" by (simp add: takeWhile_eq_all_conv)
  then have "length (takeWhile (\<lambda>x. x = sp) para) = length para" by (simp only:)
  then have "scan (\<lambda>x. x = sp) para 0 = length para" by (simp add: scan_eq)
  then show ?thesis by (simp add: wrap_lines_stop)
qed

lemma para_reach:
  assumes "i < j" "j \<le> length s" "s ! (j - 1) = nl"
  shows "para_end s i < j \<and> para_end s i < length s"
proof -
  from assms have "i \<le> j - 1" "j - 1 < length s" by simp_all
  from para_end_first [OF this assms(3)] assms show ?thesis by linarith
qed

lemma layout_from_blank_para:
  assumes j: "j \<le> length s" "slice s j (para_end s j) \<noteq> []"
      "\<forall>c \<in> set (slice s j (para_end s j)). c = sp"
    and l: "layout_from s width i n = Some out" "i \<le> length s"
  shows "i \<le> j \<Longrightarrow> j = i \<or> s ! (j - 1) = nl \<Longrightarrow> \<forall>v \<in> set out. start v < j \<or> para_end s j < start v"
  using l
proof (induction rule: layout_from_induct)
  case (last i n ls el)
  show ?case
  proof (cases "j = i")
    case True
    have "\<forall>c \<in> set (slice s i (para_end s i)). c = sp" using j(3) True by simp
    then have "wrap_lines (slice s i (para_end s i)) width i 0 n = Some []" by (rule wrap_lines_blank)
    with last(3) have "ls = []" by simp
    moreover have "slice s i (para_end s i) \<noteq> []" using j(2) True by simp
    ultimately show ?thesis by (simp add: last(4) empty_line_def)
  next
    case False
    with last.prems have "i < j" "s ! (j - 1) = nl" by simp_all
    from para_reach [OF this(1) j(1) this(2)] last(2) show ?thesis by simp
  qed
next
  case (more i n ls el rest)
  note p = layout_from_props [OF more(5), simplified]
  show ?case
  proof (cases "j = i")
    case True
    have "\<forall>c \<in> set (slice s i (para_end s i)). c = sp" using j(3) True by simp
    then have "wrap_lines (slice s i (para_end s i)) width i 0 n = Some []" by (rule wrap_lines_blank)
    with more(3) have "ls = []" by simp
    moreover have "slice s i (para_end s i) \<noteq> []" using j(2) True by simp
    ultimately have "ls @ el = []" by (simp add: more(4) empty_line_def)
    moreover from p more(2) have "\<forall>v \<in> set rest. para_end s i < start v" by auto
    ultimately show ?thesis using True by auto
  next
    case False
    with more.prems have ij: "i < j" "s ! (j - 1) = nl" by simp_all
    note r = para_reach [OF ij(1) j(1) ij(2)]
    have len: "i + length (slice s i (para_end s i)) = para_end s i"
      using para_end_bounds [OF more(1)] by (simp add: length_slice_para [OF more(1)])
    note wb = wrap_lines_bounds [OF more(3), simplified]
    have a: "\<forall>v \<in> set (ls @ el). start v < j"
      using wb len r ij by (auto simp: more(4) empty_line_def)
    have "para_end s i + 1 \<le> j" using r by simp
    moreover have "j = para_end s i + 1 \<or> s ! (j - 1) = nl" using ij by simp
    ultimately have b: "\<forall>v \<in> set rest. start v < j \<or> para_end s j < start v"
      using more.IH by blast
    from a b show ?thesis by auto
  qed
qed

lemma para_end_empty: "j \<le> length s \<Longrightarrow> j = length s \<or> s ! j = nl \<Longrightarrow> para_end s j = j"
proof -
  assume a: "j \<le> length s" "j = length s \<or> s ! j = nl"
  show ?thesis
  proof (cases "j = length s")
    case True
    then show ?thesis using para_end_bounds [OF a(1)] by simp
  next
    case False
    with a have "j < length s" "s ! j = nl" by simp_all
    from para_end_first [OF order_refl this] para_end_bounds [OF a(1)] show ?thesis by simp
  qed
qed

lemma layout_from_empty_para:
  assumes j: "j \<le> length s" "j = length s \<or> s ! j = nl"
    and l: "layout_from s width i n = Some out" "i \<le> length s"
  shows "i \<le> j \<Longrightarrow> j = i \<or> s ! (j - 1) = nl \<Longrightarrow>
         \<exists>m. filter (\<lambda>v. start v = j) out = [\<lparr>lineNo = m, ltext = [], start = j, lend = j\<rparr>]"
  using l
proof (induction rule: layout_from_induct)
  case (last i n ls el)
  show ?case
  proof (cases "j = i")
    case True
    with para_end_empty [OF j] have pe: "para_end s i = i" by simp
    then have e: "slice s i (para_end s i) = []" by (simp add: slice_def)
    with last(3) have "ls = []" by (simp add: wrap_lines_empty)
    with e True show ?thesis by (simp add: last(4) empty_line_def)
  next
    case False
    with last.prems have "i < j" "s ! (j - 1) = nl" by simp_all
    from para_reach [OF this(1) j(1) this(2)] last(2) show ?thesis by simp
  qed
next
  case (more i n ls el rest)
  note p = layout_from_props [OF more(5), simplified]
  show ?case
  proof (cases "j = i")
    case True
    with para_end_empty [OF j] have pe: "para_end s i = i" by simp
    then have e: "slice s i (para_end s i) = []" by (simp add: slice_def)
    with more(3) have "ls = []" by (simp add: wrap_lines_empty)
    with e have le: "ls @ el = [\<lparr>lineNo = n, ltext = [], start = i, lend = i\<rparr>]"
      by (simp add: more(4) empty_line_def)
    from p more(2) pe have "\<forall>v \<in> set rest. start v \<noteq> i" by auto
    then have "filter (\<lambda>v. start v = j) rest = []" using True by (simp add: filter_empty_conv)
    moreover have "filter (\<lambda>v. start v = j) (ls @ el @ rest) =
        filter (\<lambda>v. start v = j) (ls @ el) @ filter (\<lambda>v. start v = j) rest"
      by simp
    ultimately show ?thesis using le True by simp
  next
    case False
    with more.prems have ij: "i < j" "s ! (j - 1) = nl" by simp_all
    note r = para_reach [OF ij(1) j(1) ij(2)]
    have len: "i + length (slice s i (para_end s i)) = para_end s i"
      using para_end_bounds [OF more(1)] by (simp add: length_slice_para [OF more(1)])
    note wb = wrap_lines_bounds [OF more(3), simplified]
    have a: "\<forall>v \<in> set (ls @ el). start v \<noteq> j"
      using wb len r ij by (auto simp: more(4) empty_line_def)
    then have fa: "filter (\<lambda>v. start v = j) (ls @ el) = []" by (simp add: filter_empty_conv)
    have "para_end s i + 1 \<le> j" using r by simp
    moreover have "j = para_end s i + 1 \<or> s ! (j - 1) = nl" using ij by simp
    ultimately obtain m where b: "filter (\<lambda>v. start v = j) rest = [\<lparr>lineNo = m, ltext = [], start = j, lend = j\<rparr>]"
      using more.IH by blast
    have "filter (\<lambda>v. start v = j) (ls @ el @ rest) = filter (\<lambda>v. start v = j) (ls @ el) @ filter (\<lambda>v. start v = j) rest"
      by simp
    with fa b show ?thesis by simp
  qed
qed

lemma sp_neq_nl: "sp \<noteq> nl"
  by (simp add: sp_def nl_def)

lemma layout_all_spaces:
  assumes "s \<noteq> []" "\<forall>c \<in> set s. c = sp"
  shows "layoutWordWrapWithOffsets s width = Some [\<lparr>lineNo = 1, ltext = [], start = 0, lend = 0\<rparr>]"
proof -
  have "nl \<notin> set s" using assms(2) sp_neq_nl by auto
  then have pe: "para_end s 0 = length s" by (simp add: para_end_def indexOf_def)
  then have sl: "slice s 0 (para_end s 0) = s" by (simp add: slice_def)
  have w: "wrap_lines (slice s 0 (para_end s 0)) width 0 0 1 = Some []"
    unfolding sl using assms(2) by (rule wrap_lines_blank)
  have "layout_from s width 0 1 = Some []"
    using layout_from_unfold [OF _ w] pe sl assms(1) by (simp add: empty_line_def)
  then show ?thesis by (simp add: layoutWordWrapWithOffsets_def)
qed

text \<open>
  Claim C10. Let a paragraph start at offset \<open>j\<close> (the start of the buffer, or just after
  a newline) and let its text, \<open>slice s j (para_end s j)\<close>, be non-empty and consist only
  of spaces. Then, for a column width of at least 1, the loop pushes no line for it: no line
  of \<open>out\<close> starts within the paragraph, and the layout is \<open>out\<close>, or the fallback line
  when \<open>out\<close> is empty. A whole buffer that is non-empty and consists only of spaces
  yields the single fallback line \<open>{lineNo: 1, text: "", start: 0, end: 0}\<close>. So the line
  count can be smaller than the number of paragraphs: the buffer of the paragraphs \<open>a\<close>,
  two spaces, \<open>b\<close> has three paragraphs and two visual lines.
\<close>

theorem blank_paragraph_no_line:
  assumes "1 \<le> width"
  shows "(j \<le> length s \<and> (j = 0 \<or> s ! (j - 1) = nl) \<and> slice s j (para_end s j) \<noteq> [] \<and>
          (\<forall>c \<in> set (slice s j (para_end s j)). c = sp) \<longrightarrow>
            (\<exists>out. layout_from s width 0 1 = Some out \<and>
               (\<forall>v \<in> set out. start v < j \<or> para_end s j < start v) \<and>
               layoutWordWrapWithOffsets s width =
                 Some (if out = [] then [\<lparr>lineNo = 1, ltext = [], start = 0, lend = 0\<rparr>] else out))) \<and>
         (s \<noteq> [] \<and> (\<forall>c \<in> set s. c = sp) \<longrightarrow>
            layoutWordWrapWithOffsets s width = Some [\<lparr>lineNo = 1, ltext = [], start = 0, lend = 0\<rparr>]) \<and>
         layoutWordWrapWithOffsets [CHR ''a'', nl, sp, sp, nl, CHR ''b''] 10 =
           Some [\<lparr>lineNo = 1, ltext = ''a'', start = 0, lend = 1\<rparr>,
                 \<lparr>lineNo = 2, ltext = ''b'', start = 5, lend = 6\<rparr>] \<and>
         paragraphs [CHR ''a'', nl, sp, sp, nl, CHR ''b''] = [''a'', [sp, sp], ''b'']"
proof -
  have a: "j \<le> length s \<and> (j = 0 \<or> s ! (j - 1) = nl) \<and> slice s j (para_end s j) \<noteq> [] \<and>
          (\<forall>c \<in> set (slice s j (para_end s j)). c = sp) \<longrightarrow>
            (\<exists>out. layout_from s width 0 1 = Some out \<and>
               (\<forall>v \<in> set out. start v < j \<or> para_end s j < start v) \<and>
               layoutWordWrapWithOffsets s width =
                 Some (if out = [] then [\<lparr>lineNo = 1, ltext = [], start = 0, lend = 0\<rparr>] else out))"
  proof
    assume h: "j \<le> length s \<and> (j = 0 \<or> s ! (j - 1) = nl) \<and> slice s j (para_end s j) \<noteq> [] \<and>
          (\<forall>c \<in> set (slice s j (para_end s j)). c = sp)"
    from layout_from_Some [OF assms, of 0 s 1] obtain out where o: "layout_from s width 0 1 = Some out"
      by auto
    from h have j: "j \<le> length s" "slice s j (para_end s j) \<noteq> []"
      "\<forall>c \<in> set (slice s j (para_end s j)). c = sp" and st: "j = 0 \<or> s ! (j - 1) = nl" by simp_all
    have "\<forall>v \<in> set out. start v < j \<or> para_end s j < start v"
      using layout_from_blank_para [OF j o _ _ st] by simp
    with o show "\<exists>out. layout_from s width 0 1 = Some out \<and>
               (\<forall>v \<in> set out. start v < j \<or> para_end s j < start v) \<and>
               layoutWordWrapWithOffsets s width =
                 Some (if out = [] then [\<lparr>lineNo = 1, ltext = [], start = 0, lend = 0\<rparr>] else out)"
      by (simp add: layoutWordWrapWithOffsets_def)
  qed
  have b: "s \<noteq> [] \<and> (\<forall>c \<in> set s. c = sp) \<longrightarrow>
            layoutWordWrapWithOffsets s width = Some [\<lparr>lineNo = 1, ltext = [], start = 0, lend = 0\<rparr>]"
    using layout_all_spaces by blast
  have c: "layoutWordWrapWithOffsets [CHR ''a'', nl, sp, sp, nl, CHR ''b''] 10 =
           Some [\<lparr>lineNo = 1, ltext = ''a'', start = 0, lend = 1\<rparr>,
                 \<lparr>lineNo = 2, ltext = ''b'', start = 5, lend = 6\<rparr>]"
    by code_simp
  have d: "paragraphs [CHR ''a'', nl, sp, sp, nl, CHR ''b''] = [''a'', [sp, sp], ''b'']"
    by (simp add: nl_def sp_def)
  from a b c d show ?thesis by blast
qed

lemma blank_example_facts:
  "para_end [CHR ''a'', nl, sp, sp, nl, CHR ''b''] 2 = 4"
  "slice [CHR ''a'', nl, sp, sp, nl, CHR ''b''] 2 4 = [sp, sp]"
  "layout_from [CHR ''a'', nl, sp, sp, nl, CHR ''b''] 10 0 1 =
     Some [\<lparr>lineNo = 1, ltext = ''a'', start = 0, lend = 1\<rparr>,
           \<lparr>lineNo = 2, ltext = ''b'', start = 5, lend = 6\<rparr>]"
  by code_simp+

theorem blank_paragraph_no_line_witness:
  "(1::nat) \<le> 10 \<and> (2::nat) \<le> length [CHR ''a'', nl, sp, sp, nl, CHR ''b''] \<and>
   [CHR ''a'', nl, sp, sp, nl, CHR ''b''] ! (2 - 1) = nl \<and>
   slice [CHR ''a'', nl, sp, sp, nl, CHR ''b''] 2 (para_end [CHR ''a'', nl, sp, sp, nl, CHR ''b''] 2) = [sp, sp] \<and>
   (\<exists>out. layout_from [CHR ''a'', nl, sp, sp, nl, CHR ''b''] 10 0 1 = Some out \<and>
      list_all (\<lambda>v. start v < 2 \<or> 4 < start v) out \<and> length out = 2 \<and>
      layoutWordWrapWithOffsets [CHR ''a'', nl, sp, sp, nl, CHR ''b''] 10 = Some out) \<and>
   layoutWordWrapWithOffsets [sp, sp, sp] 10 = Some [\<lparr>lineNo = 1, ltext = [], start = 0, lend = 0\<rparr>]"
proof -
  let ?s = "[CHR ''a'', nl, sp, sp, nl, CHR ''b'']"
  have w: "(1::nat) \<le> 10" by simp
  have h1: "(2::nat) \<le> length ?s" by simp
  have h2: "?s ! (2 - 1) = nl" by simp
  have h3: "slice ?s 2 (para_end ?s 2) = [sp, sp]" by (simp only: blank_example_facts)
  have h: "2 \<le> length ?s \<and> (2 = 0 \<or> ?s ! (2 - 1) = nl) \<and> slice ?s 2 (para_end ?s 2) \<noteq> [] \<and>
          (\<forall>c \<in> set (slice ?s 2 (para_end ?s 2)). c = sp)"
    unfolding h3 using h1 h2 by simp
  from blank_paragraph_no_line [OF w, of 2 ?s, THEN conjunct1, THEN mp, OF h]
  obtain out where o: "layout_from ?s 10 0 1 = Some out"
    and v: "\<forall>v \<in> set out. start v < 2 \<or> para_end ?s 2 < start v"
    and l: "layoutWordWrapWithOffsets ?s 10 =
              Some (if out = [] then [\<lparr>lineNo = 1, ltext = [], start = 0, lend = 0\<rparr>] else out)"
    by blast
  from o have oe: "out = [\<lparr>lineNo = 1, ltext = ''a'', start = 0, lend = 1\<rparr>,
                          \<lparr>lineNo = 2, ltext = ''b'', start = 5, lend = 6\<rparr>]"
    by (simp only: blank_example_facts option.inject)
  have a: "\<exists>out. layout_from ?s 10 0 1 = Some out \<and>
      list_all (\<lambda>v. start v < 2 \<or> 4 < start v) out \<and> length out = 2 \<and>
      layoutWordWrapWithOffsets ?s 10 = Some out"
    using o v l by (simp add: oe list_all_iff)
  have k: "[sp, sp, sp] \<noteq> [] \<and> (\<forall>c \<in> set [sp, sp, sp]. c = sp)" by simp
  note b = blank_paragraph_no_line [OF w, of 0 "[sp, sp, sp]", THEN conjunct2, THEN conjunct1, THEN mp, OF k]
  from w h1 h2 h3 a b show ?thesis by blast
qed

text \<open>
  Claim C7. The empty buffer yields exactly the one line
  \<open>{lineNo: 1, text: "", start: 0, end: 0}\<close>, at every column width. For a column width of
  at least 1, every empty paragraph (one that starts at an offset \<open>j\<close>, the start of the
  buffer or just after a newline, and ends there: a newline or the end of the buffer follows
  at once) has exactly one visual line: the lines of the layout that start at \<open>j\<close>, which
  are the lines of that paragraph, are a single line with empty text and
  \<open>start = end = j\<close>.
\<close>

theorem empty_paragraph_one_line:
  "layoutWordWrapWithOffsets [] width = Some [\<lparr>lineNo = 1, ltext = [], start = 0, lend = 0\<rparr>] \<and>
   (1 \<le> width \<and> j \<le> length s \<and> (j = 0 \<or> s ! (j - 1) = nl) \<and> (j = length s \<or> s ! j = nl) \<longrightarrow>
      (\<exists>out m. layoutWordWrapWithOffsets s width = Some out \<and>
         filter (\<lambda>v. start v = j) out = [\<lparr>lineNo = m, ltext = [], start = j, lend = j\<rparr>]))"
proof -
  have a: "layoutWordWrapWithOffsets [] width = Some [\<lparr>lineNo = 1, ltext = [], start = 0, lend = 0\<rparr>]"
  proof -
    have pe: "para_end [] 0 = 0" by (simp add: para_end_def indexOf_def)
    have w: "wrap_lines (slice [] 0 (para_end [] 0)) width 0 0 1 = Some []"
      by (simp add: slice_def wrap_lines_empty)
    have "layout_from [] width 0 1 = Some [\<lparr>lineNo = 1, ltext = [], start = 0, lend = 0\<rparr>]"
      using layout_from_unfold [OF _ w] pe by (simp add: empty_line_def slice_def)
    then show ?thesis by (simp add: layoutWordWrapWithOffsets_def)
  qed
  have b: "1 \<le> width \<and> j \<le> length s \<and> (j = 0 \<or> s ! (j - 1) = nl) \<and> (j = length s \<or> s ! j = nl) \<longrightarrow>
      (\<exists>out m. layoutWordWrapWithOffsets s width = Some out \<and>
         filter (\<lambda>v. start v = j) out = [\<lparr>lineNo = m, ltext = [], start = j, lend = j\<rparr>])"
  proof
    assume h: "1 \<le> width \<and> j \<le> length s \<and> (j = 0 \<or> s ! (j - 1) = nl) \<and> (j = length s \<or> s ! j = nl)"
    then have w: "1 \<le> width" and j: "j \<le> length s" "j = length s \<or> s ! j = nl"
      and st: "j = 0 \<or> s ! (j - 1) = nl" by simp_all
    from layout_from_Some [OF w, of 0 s 1] obtain out where o: "layout_from s width 0 1 = Some out"
      by auto
    from layout_from_empty_para [OF j o _ _ st] obtain m where
      f: "filter (\<lambda>v. start v = j) out = [\<lparr>lineNo = m, ltext = [], start = j, lend = j\<rparr>]" by auto
    then have "out \<noteq> []" by auto
    with o have "layoutWordWrapWithOffsets s width = Some out" by (simp add: layoutWordWrapWithOffsets_def)
    with f show "\<exists>out m. layoutWordWrapWithOffsets s width = Some out \<and>
         filter (\<lambda>v. start v = j) out = [\<lparr>lineNo = m, ltext = [], start = j, lend = j\<rparr>]" by blast
  qed
  from a b show ?thesis by blast
qed

lemma empty_para_examples:
  "layoutWordWrapWithOffsets [CHR ''a'', nl, nl, CHR ''b''] 10 =
     Some [\<lparr>lineNo = 1, ltext = ''a'', start = 0, lend = 1\<rparr>,
           \<lparr>lineNo = 2, ltext = [], start = 2, lend = 2\<rparr>,
           \<lparr>lineNo = 3, ltext = ''b'', start = 3, lend = 4\<rparr>]"
  "layoutWordWrapWithOffsets [CHR ''a'', CHR ''b'', CHR ''c'', nl] 10 =
     Some [\<lparr>lineNo = 1, ltext = ''abc'', start = 0, lend = 3\<rparr>,
           \<lparr>lineNo = 2, ltext = [], start = 4, lend = 4\<rparr>]"
  by code_simp+

theorem empty_paragraph_one_line_witness:
  "(1::nat) \<le> 10 \<and> (2::nat) \<le> length [CHR ''a'', nl, nl, CHR ''b''] \<and>
   [CHR ''a'', nl, nl, CHR ''b''] ! (2 - 1) = nl \<and> [CHR ''a'', nl, nl, CHR ''b''] ! 2 = nl \<and>
   (\<exists>out m. layoutWordWrapWithOffsets [CHR ''a'', nl, nl, CHR ''b''] 10 = Some out \<and> length out = 3 \<and>
      filter (\<lambda>v. start v = 2) out = [\<lparr>lineNo = m, ltext = [], start = 2, lend = 2\<rparr>]) \<and>
   (4::nat) = length [CHR ''a'', CHR ''b'', CHR ''c'', nl] \<and>
   [CHR ''a'', CHR ''b'', CHR ''c'', nl] ! (4 - 1) = nl \<and>
   (\<exists>out m. layoutWordWrapWithOffsets [CHR ''a'', CHR ''b'', CHR ''c'', nl] 10 = Some out \<and> length out = 2 \<and>
      filter (\<lambda>v. start v = 4) out = [\<lparr>lineNo = m, ltext = [], start = 4, lend = 4\<rparr>])"
proof -
  let ?s = "[CHR ''a'', nl, nl, CHR ''b'']"
  let ?t = "[CHR ''a'', CHR ''b'', CHR ''c'', nl]"
  have h1: "(2::nat) \<le> length ?s" "?s ! (2 - 1) = nl" "?s ! 2 = nl" by simp_all
  then have h: "(1::nat) \<le> 10 \<and> 2 \<le> length ?s \<and> (2 = 0 \<or> ?s ! (2 - 1) = nl) \<and> (2 = length ?s \<or> ?s ! 2 = nl)"
    by simp
  from empty_paragraph_one_line [of 10 2 ?s, THEN conjunct2, THEN mp, OF h]
  obtain out m where o: "layoutWordWrapWithOffsets ?s 10 = Some out"
    "filter (\<lambda>v. start v = 2) out = [\<lparr>lineNo = m, ltext = [], start = 2, lend = 2\<rparr>]" by blast
  from o(1) have "length out = 3" by (auto simp only: empty_para_examples option.inject list.size)
  with o have a: "\<exists>out m. layoutWordWrapWithOffsets ?s 10 = Some out \<and> length out = 3 \<and>
      filter (\<lambda>v. start v = 2) out = [\<lparr>lineNo = m, ltext = [], start = 2, lend = 2\<rparr>]" by blast
  have k1: "(4::nat) = length ?t" "?t ! (4 - 1) = nl" by simp_all
  then have k: "(1::nat) \<le> 10 \<and> 4 \<le> length ?t \<and> (4 = 0 \<or> ?t ! (4 - 1) = nl) \<and> (4 = length ?t \<or> ?t ! 4 = nl)"
    by simp
  from empty_paragraph_one_line [of 10 4 ?t, THEN conjunct2, THEN mp, OF k]
  obtain out2 m2 where o2: "layoutWordWrapWithOffsets ?t 10 = Some out2"
    "filter (\<lambda>v. start v = 4) out2 = [\<lparr>lineNo = m2, ltext = [], start = 4, lend = 4\<rparr>]" by blast
  from o2(1) have "length out2 = 2" by (auto simp only: empty_para_examples option.inject list.size)
  with o2 have b: "\<exists>out m. layoutWordWrapWithOffsets ?t 10 = Some out \<and> length out = 2 \<and>
      filter (\<lambda>v. start v = 4) out = [\<lparr>lineNo = m, ltext = [], start = 4, lend = 4\<rparr>]" by blast
  from h1 a k1 b show ?thesis by simp
qed

section \<open>The claims about words\<close>

subsection \<open>A word longer than the column width\<close>

lemma build_line_prefix:
  "cursor \<le> length para \<Longrightarrow> build_line para width pStart cursor lt ls le = (c', t, s, e) \<Longrightarrow>
   take (length lt) t = lt"
proof (induction para width pStart cursor lt ls le arbitrary: c' t s e rule: build_line.induct)
  case (1 para width pStart cursor lt ls le)
  define wStart where "wStart = scan (\<lambda>c. c = sp) para cursor"
  define wEnd where "wEnd = scan (\<lambda>c. c \<noteq> sp) para wStart"
  define word where "word = slice para wStart wEnd"
  define candidate where "candidate = (if lt \<noteq> [] then lt @ [sp] @ word else word)"
  consider (exit) "\<not> cursor < length para"
    | (trail) "cursor < length para" "length para \<le> wStart"
    | (fit) "cursor < length para" "wStart < length para" "length candidate \<le> width"
    | (cut) "cursor < length para" "wStart < length para" "\<not> length candidate \<le> width" "lt = []"
    | (brk) "cursor < length para" "wStart < length para" "\<not> length candidate \<le> width" "lt \<noteq> []"
    by fastforce
  then show ?case
  proof cases
    case exit
    with "1.prems" show ?thesis by (simp add: build_line_exit)
  next
    case trail
    with "1.prems" show ?thesis by (simp add: build_line_trail wStart_def)
  next
    case fit
    have wb: "cursor \<le> wStart \<and> wStart < wEnd \<and> wEnd \<le> length para \<and> length word = wEnd - wStart"
      unfolding word_def using word_bounds [OF "1.prems"(1) wStart_def fit(2) wEnd_def] .
    let ?c2 = "scan (\<lambda>c. c = sp) para wEnd"
    have c2: "?c2 \<le> length para" using wb by (simp add: scan_le)
    have eq: "build_line para width pStart ?c2 candidate (if lt = [] then pStart + wStart else ls) (pStart + wEnd)
                = (c', t, s, e)"
      using build_line_fit [OF fit(1) wStart_def fit(2) wEnd_def word_def candidate_def fit(3)] "1.prems"(2)
      by simp
    have nl: "\<not> length para \<le> wStart" using fit by simp
    note ih = "1.IH" [OF fit(1) wStart_def nl wEnd_def word_def candidate_def fit(3) c2 eq]
    have a: "take (length lt) candidate = lt" by (simp add: candidate_def)
    have b: "length lt \<le> length candidate" by (simp add: candidate_def)
    have "take (length lt) t = take (length lt) (take (length candidate) t)"
      using b by (simp add: min_def)
    also have "\<dots> = take (length lt) candidate" by (simp only: ih)
    finally show ?thesis using a by simp
  next
    case cut
    from cut(4) show ?thesis by simp
  next
    case brk
    then have "\<not> length (lt @ [sp] @ word) \<le> width" by (simp add: candidate_def)
    note r = build_line_break [OF brk(1) wStart_def brk(2) wEnd_def word_def brk(4) this, of pStart ls le]
    with "1.prems" show ?thesis by simp
  qed
qed

lemma takeWhile_drop: "n \<le> length (takeWhile P xs) \<Longrightarrow> takeWhile P (drop n xs) = drop n (takeWhile P xs)"
proof (induction xs arbitrary: n)
  case Nil
  then show ?case by simp
next
  case (Cons x xs)
  then show ?case by (cases n) (auto split: if_splits)
qed

lemma nth_takeWhile_ok: "k < length (takeWhile P xs) \<Longrightarrow> P (xs ! k)"
proof -
  assume k: "k < length (takeWhile P xs)"
  then have "takeWhile P xs ! k \<in> set (takeWhile P xs)" by (rule nth_mem)
  then have "P (takeWhile P xs ! k)" by (rule set_takeWhileD [THEN conjunct2])
  with k show ?thesis by (simp add: takeWhile_nth)
qed

lemma wrap_lines_long_word:
  assumes w: "1 \<le> width" and c: "c < length para" and ns: "para ! c \<noteq> sp"
    and word: "word = takeWhile (\<lambda>x. x \<noteq> sp) (drop c para)" and long: "width < length word"
  shows "\<exists>rest. wrap_lines para width pStart c n =
             Some (\<lparr>lineNo = n, ltext = take width word, start = pStart + c, lend = pStart + c + width\<rparr> # rest) \<and>
           wrap_lines para width pStart (c + width) (n + 1) = Some rest \<and> rest \<noteq> [] \<and>
           lineNo (hd rest) = n + 1 \<and> start (hd rest) = pStart + c + width \<and>
           take (length (take width (drop width word))) (ltext (hd rest)) = take width (drop width word)"
proof -
  have cl: "c \<le> length para" using c by simp
  have ws: "c = scan (\<lambda>x. x = sp) para c" using ns by (simp add: scan_done)
  define wEnd where "wEnd = scan (\<lambda>x. x \<noteq> sp) para c"
  have sw: "slice para c wEnd = word" unfolding wEnd_def word by (rule slice_scan [OF cl])
  have sw0: "slice word 0 width = take width word" by (simp add: slice_def)
  have b1: "build_line para width pStart c [] (pStart + c) (pStart + c) =
              (c + width, take width word, pStart + c, pStart + c + width)"
    using build_line_cut [OF c ws c wEnd_def sw [symmetric], of width pStart "pStart + c" "pStart + c"] long
    by (simp add: sw0)
  note st1 = wrap_lines_step [OF c ws c b1, of n]
  \<comment> \<open>the cursor after the cut is still inside the word\<close>
  let ?c2 = "c + width"
  have wl: "length word \<le> length para - c"
    unfolding word using length_takeWhile_le [of "\<lambda>x. x \<noteq> sp" "drop c para"] by simp
  have c2: "?c2 < length para" using long wl by simp
  have ns2: "para ! ?c2 \<noteq> sp"
  proof -
    have "(\<lambda>x. x \<noteq> sp) (drop c para ! width)" using long unfolding word by (rule nth_takeWhile_ok)
    then show ?thesis using cl by simp
  qed
  have ws2: "?c2 = scan (\<lambda>x. x = sp) para ?c2" using ns2 by (simp add: scan_done)
  have word2: "takeWhile (\<lambda>x. x \<noteq> sp) (drop ?c2 para) = drop width word"
  proof -
    have "takeWhile (\<lambda>x. x \<noteq> sp) (drop width (drop c para)) = drop width (takeWhile (\<lambda>x. x \<noteq> sp) (drop c para))"
      using long unfolding word by (intro takeWhile_drop) simp
    then show ?thesis by (simp add: word add.commute)
  qed
  obtain c3 t s e where b2: "build_line para width pStart ?c2 [] (pStart + ?c2) (pStart + ?c2) = (c3, t, s, e)"
    by (cases "build_line para width pStart ?c2 [] (pStart + ?c2) (pStart + ?c2)") auto
  note f2 = build_line_first [OF c2 ns2 b2]
  from wrap_lines_Some [OF w, of para pStart c3 "n + 1 + 1"] obtain rest2 where
    r2: "wrap_lines para width pStart c3 (n + 1 + 1) = Some rest2" by blast
  have st2: "wrap_lines para width pStart ?c2 (n + 1) =
               Some (\<lparr>lineNo = n + 1, ltext = t, start = s, lend = e\<rparr> # rest2)"
    using wrap_lines_step [OF c2 ws2 c2 b2, of "n + 1"] r2 by simp
  have pre: "take (length (take width (drop width word))) t = take width (drop width word)"
  proof -
    define wEnd2 where "wEnd2 = scan (\<lambda>x. x \<noteq> sp) para ?c2"
    have c2l: "?c2 \<le> length para" using c2 by simp
    have sw2: "slice para ?c2 wEnd2 = drop width word"
      unfolding wEnd2_def word2 [symmetric] by (rule slice_scan [OF c2l])
    have wb: "?c2 < wEnd2 \<and> wEnd2 \<le> length para"
      using word_bounds [OF c2l ws2 c2 wEnd2_def] by simp
    show ?thesis
    proof (cases "length (drop width word) \<le> width")
      case True
      let ?k = "scan (\<lambda>x. x = sp) para wEnd2"
      have kl: "?k \<le> length para" using wb by (simp add: scan_le)
      have "build_line para width pStart ?c2 [] (pStart + ?c2) (pStart + ?c2)
              = build_line para width pStart ?k (drop width word) (pStart + ?c2) (pStart + wEnd2)"
        using build_line_fit [OF c2 ws2 c2 wEnd2_def sw2 [symmetric], of "drop width word" "[]" width pStart
            "pStart + ?c2" "pStart + ?c2"] True
        by simp
      with b2 have "build_line para width pStart ?k (drop width word) (pStart + ?c2) (pStart + wEnd2) = (c3, t, s, e)"
        by simp
      from build_line_prefix [OF kl this] True show ?thesis by simp
    next
      case False
      have sw3: "slice (drop width word) 0 width = take width (drop width word)" by (simp add: slice_def)
      from build_line_cut [OF c2 ws2 c2 wEnd2_def sw2 [symmetric] False, of pStart "pStart + ?c2" "pStart + ?c2"] b2
      have "t = take width (drop width word)" by (simp add: sw3)
      then show ?thesis using False by (simp add: min_def)
    qed
  qed
  from st1 st2 f2 pre show ?thesis by (simp add: add.assoc)
qed

lemma layout_single_long_word:
  assumes ch: "\<forall>x \<in> set w. x \<noteq> sp \<and> x \<noteq> nl" and long: "width < length w" and two: "length w \<le> 2 * width"
  shows "layoutWordWrapWithOffsets w width =
           Some [\<lparr>lineNo = 1, ltext = take width w, start = 0, lend = width\<rparr>,
                 \<lparr>lineNo = 2, ltext = drop width w, start = width, lend = length w\<rparr>]"
proof -
  have tw: "takeWhile (\<lambda>x. x \<noteq> sp) (drop k w) = drop k w" for k
    using ch by (auto simp: takeWhile_eq_all_conv dest: in_set_dropD)
  have sn: "scan (\<lambda>x. x \<noteq> sp) w k = length w" if "k \<le> length w" for k
    using that by (simp add: scan_eq tw)
  have ss: "scan (\<lambda>x. x = sp) w k = k" for k
    using ch by (intro scan_done) auto
  have sl0: "slice w 0 (length w) = w" by (simp add: slice_def)
  have slw: "slice w width (length w) = drop width w" by (simp add: slice_def)
  have c0: "0 < length w" using long by linarith
  \<comment> \<open>first line: the word is cut\<close>
  have b1: "build_line w width 0 0 [] 0 0 = (width, take width w, 0, width)"
    using build_line_cut [OF c0 ss [symmetric] c0 sn [symmetric, of 0] sl0 [symmetric], of width 0 0 0] long
    by (simp add: slice_def)
  \<comment> \<open>second line: the remainder fits\<close>
  have b2: "build_line w width 0 width [] width width = (length w, drop width w, width, length w)"
  proof -
    have f: "length (if [] \<noteq> ([]::string) then [] @ [sp] @ drop width w else drop width w) \<le> width"
      using two by simp
    have "build_line w width 0 width [] width width
            = build_line w width 0 (scan (\<lambda>x. x = sp) w (length w)) (drop width w) width (length w)"
      using build_line_fit [OF long ss [symmetric] long sn [symmetric] slw [symmetric] refl f, of 0 width width] long
      by simp
    also have "\<dots> = (length w, drop width w, width, length w)"
      by (simp add: ss build_line_exit)
    finally show ?thesis .
  qed
  have w3: "wrap_lines w width 0 (length w) 3 = Some []" by (simp add: wrap_lines_stop)
  have w2: "wrap_lines w width 0 width 2 =
              Some [\<lparr>lineNo = 2, ltext = drop width w, start = width, lend = length w\<rparr>]"
    using wrap_lines_step [OF long ss [symmetric] long, of width 0 "length w" "drop width w" width "length w" 2] b2 w3
    by simp
  have w1: "wrap_lines w width 0 0 1 =
              Some [\<lparr>lineNo = 1, ltext = take width w, start = 0, lend = width\<rparr>,
                    \<lparr>lineNo = 2, ltext = drop width w, start = width, lend = length w\<rparr>]"
    using wrap_lines_step [OF c0 ss [symmetric] c0, of width 0 width "take width w" 0 width 1] b1 w2
    by (simp add: numeral_2_eq_2)
  have "nl \<notin> set w" using ch by auto
  then have pe: "para_end w 0 = length w" by (simp add: para_end_def indexOf_def)
  have wne: "w \<noteq> []" using c0 by auto
  have "layout_from w width 0 1 =
          Some [\<lparr>lineNo = 1, ltext = take width w, start = 0, lend = width\<rparr>,
                \<lparr>lineNo = 2, ltext = drop width w, start = width, lend = length w\<rparr>]"
    using layout_from_unfold [of 0 w width 1] w1 pe sl0 wne by (simp add: empty_line_def)
  then show ?thesis by (simp add: layoutWordWrapWithOffsets_def)
qed

text \<open>
  Claim C5. Let the column width be at least 1, let a word start at the cursor \<open>c\<close> of a
  paragraph (so the line being built is empty) and let it be longer than the width. Then the
  paragraph loop emits a line whose text is exactly the first \<open>width\<close> characters of the
  word, from offset \<open>pStart + c\<close> to \<open>pStart + c + width\<close>, and goes on from the cursor
  \<open>c + width\<close>, the first character not emitted: a next line exists, it starts at that
  offset and its text begins with the remainder of the word (up to \<open>width\<close> characters of
  it). In particular a buffer that is one word longer than the width and at most twice as
  long is laid out as its first \<open>width\<close> characters followed by a line with the rest: a word
  of 15 characters at 10 columns gives a line of 10 characters and a line of the remaining 5.
\<close>

theorem long_word_truncated:
  "(1 \<le> width \<and> c < length para \<and> para ! c \<noteq> sp \<and>
    word = takeWhile (\<lambda>x. x \<noteq> sp) (drop c para) \<and> width < length word \<longrightarrow>
      (\<exists>rest. wrap_lines para width pStart c n =
           Some (\<lparr>lineNo = n, ltext = take width word, start = pStart + c, lend = pStart + c + width\<rparr> # rest) \<and>
         wrap_lines para width pStart (c + width) (n + 1) = Some rest \<and> rest \<noteq> [] \<and>
         lineNo (hd rest) = n + 1 \<and> start (hd rest) = pStart + c + width \<and>
         take (length (take width (drop width word))) (ltext (hd rest)) = take width (drop width word))) \<and>
   ((\<forall>x \<in> set w. x \<noteq> sp \<and> x \<noteq> nl) \<and> width < length w \<and> length w \<le> 2 * width \<longrightarrow>
      layoutWordWrapWithOffsets w width =
        Some [\<lparr>lineNo = 1, ltext = take width w, start = 0, lend = width\<rparr>,
              \<lparr>lineNo = 2, ltext = drop width w, start = width, lend = length w\<rparr>])"
  using wrap_lines_long_word [of width c para word pStart n] layout_single_long_word [of w width]
  by blast

lemma long_word_example:
  "takeWhile (\<lambda>x. x \<noteq> sp) (drop 0 ''abcdefghijklmno'') = ''abcdefghijklmno''"
  "\<forall>x \<in> set ''abcdefghijklmno''. x \<noteq> sp \<and> x \<noteq> nl"
  by (simp_all add: sp_def nl_def)

theorem long_word_truncated_witness:
  "(1::nat) \<le> 10 \<and> (0::nat) < length ''abcdefghijklmno'' \<and> ''abcdefghijklmno'' ! 0 \<noteq> sp \<and>
   (10::nat) < length ''abcdefghijklmno'' \<and> length ''abcdefghijklmno'' \<le> 2 * (10::nat) \<and>
   (\<exists>rest. wrap_lines ''abcdefghijklmno'' 10 0 0 1 =
         Some (\<lparr>lineNo = 1, ltext = ''abcdefghij'', start = 0, lend = 10\<rparr> # rest) \<and>
       wrap_lines ''abcdefghijklmno'' 10 0 10 2 = Some rest \<and> start (hd rest) = 10 \<and>
       take 5 (ltext (hd rest)) = ''klmno'') \<and>
   layoutWordWrapWithOffsets ''abcdefghijklmno'' 10 =
     Some [\<lparr>lineNo = 1, ltext = ''abcdefghij'', start = 0, lend = 10\<rparr>,
           \<lparr>lineNo = 2, ltext = ''klmno'', start = 10, lend = 15\<rparr>]"
proof -
  let ?w = "''abcdefghijklmno''"
  have h: "(1::nat) \<le> 10 \<and> 0 < length ?w \<and> ?w ! 0 \<noteq> sp \<and>
           ?w = takeWhile (\<lambda>x. x \<noteq> sp) (drop 0 ?w) \<and> 10 < length ?w"
    by (simp add: long_word_example)
  have a: "\<exists>rest. wrap_lines ?w 10 0 0 1 =
         Some (\<lparr>lineNo = 1, ltext = ''abcdefghij'', start = 0, lend = 10\<rparr> # rest) \<and>
       wrap_lines ?w 10 0 10 2 = Some rest \<and> start (hd rest) = 10 \<and>
       take 5 (ltext (hd rest)) = ''klmno''"
  proof -
    from long_word_truncated [of 10 0 ?w ?w 0 1, THEN conjunct1, THEN mp, OF h]
    obtain rest where
      r1: "wrap_lines ?w 10 0 0 1 =
             Some (\<lparr>lineNo = 1, ltext = take 10 ?w, start = 0 + 0, lend = 0 + 0 + 10\<rparr> # rest)"
      and r2: "wrap_lines ?w 10 0 (0 + 10) (1 + 1) = Some rest"
      and r3: "start (hd rest) = 0 + 0 + 10"
      and r4: "take (length (take 10 (drop 10 ?w))) (ltext (hd rest)) = take 10 (drop 10 ?w)"
      by blast
    have n: "(0::nat) + 10 = 10" "(1::nat) + 1 = 2" "(0::nat) + 0 = 0" by simp_all
    have t: "take 10 ?w = ''abcdefghij''" "take 10 (drop 10 ?w) = ''klmno''" "length ''klmno'' = 5"
      by simp_all
    from r1 r2 r3 r4 show ?thesis unfolding n t by blast
  qed
  have k: "(\<forall>x \<in> set ?w. x \<noteq> sp \<and> x \<noteq> nl) \<and> 10 < length ?w \<and> length ?w \<le> 2 * 10"
    using long_word_example(2) by simp
  from long_word_truncated [of 10 0 ?w ?w 0 1 ?w, THEN conjunct2, THEN mp, OF k]
  have b: "layoutWordWrapWithOffsets ?w 10 =
     Some [\<lparr>lineNo = 1, ltext = ''abcdefghij'', start = 0, lend = 10\<rparr>,
           \<lparr>lineNo = 2, ltext = ''klmno'', start = 10, lend = 15\<rparr>]"
    by simp
  have g: "(1::nat) \<le> 10" "(0::nat) < length ?w" "?w ! 0 \<noteq> sp" "(10::nat) < length ?w"
    "length ?w \<le> 2 * (10::nat)"
    by (simp_all add: sp_def)
  from g a b show ?thesis by blast
qed

subsection \<open>The words of a text are kept\<close>


































end
